theory Spec2Isabelle
  imports Main
begin

section \<open>The book list of \<^verbatim>\<open>book_list.cpp\<close>\<close>

text \<open>
  A \<^verbatim>\<open>BookList\<close> keeps the same sequence of books in four containers: a
  \<^verbatim>\<open>std::array\<close> with a separate element count, a \<^verbatim>\<open>std::vector\<close>, a
  \<^verbatim>\<open>std::list\<close> and a \<^verbatim>\<open>std::forward_list\<close>. The class declaration
  (\<^verbatim>\<open>book_list.hpp\<close>) and the element type (\<^verbatim>\<open>book.hpp\<close>) are not part of the
  sources; what the member functions need from them is a parameter of the model:

  \<^item> the element type is the type variable \<open>'b\<close>; \<^verbatim>\<open>==\<close> and \<^verbatim>\<open>!=\<close> on books are
    HOL equality, \<^verbatim>\<open><\<close> and \<^verbatim>\<open>>\<close> are the order of a \<open>linorder\<close>;
  \<^item> the capacity of the array is the length of the list that models it: the
    array always has that many slots, of which the first \<open>books_array_size\<close>
    hold the sequence (the members \<^verbatim>\<open>books_array_\<close>, \<^verbatim>\<open>books_array_size_\<close>,
    \<^verbatim>\<open>books_vector_\<close>, \<^verbatim>\<open>books_dl_list_\<close> and \<^verbatim>\<open>books_sl_list_\<close> lose their
    trailing underscore, which a HOL name cannot end with);
  \<^item> the default-constructed book, the state in which a move assignment leaves
    its source, and the stream insertion and extraction of a book are arguments
    of the functions that use them.

  Books are passed by value: a \<^verbatim>\<open>const Book&\<close> argument is taken not to alias
  an element of the list it is applied to.
\<close>

subsection \<open>State, exceptions, outcomes\<close>

record 'b BookList =
  books_array :: "'b list"
  books_array_size :: nat
  books_vector :: "'b list"
  books_dl_list :: "'b list"
  books_sl_list :: "'b list"

datatype error =
    InvalidInternalStateException
  | InvalidOffsetException
  | CapacityExceededException

datatype Position = TOP | BOTTOM

text \<open>
  A \<^verbatim>\<open>const\<close> member function either returns a value or throws. A mutator
  returns, or throws leaving the object in the state it had at the \<^verbatim>\<open>throw\<close>,
  or runs into behaviour the language leaves undefined (an access outside the
  array, a read of an uninitialised variable).
\<close>

datatype 'a result = Value 'a | Throws error | Undefined_value

datatype 'b outcome =
    Returned "'b BookList"
  | Thrown error "'b BookList"
  | Undefined

subsection \<open>The consistency check\<close>

text \<open>
  The four iterators of \<^verbatim>\<open>containers_are_consistent\<close> advance in unison while the
  vector's iterator has not reached its end. The length test before the loop
  makes the two linked lists as long as the vector. The array's iterator can only
  run out of slots when \<open>books_array_size\<close> exceeds the capacity, where the C++
  dereferences a past-the-end iterator; the walk answers \<open>False\<close> there.
\<close>

fun walk_in_unison :: "'b list \<Rightarrow> 'b list \<Rightarrow> 'b list \<Rightarrow> 'b list \<Rightarrow> bool" where
  "walk_in_unison arr [] dl sl = True"
| "walk_in_unison (a # arr) (v # vec) (d # dl) (s # sl) =
     (if a \<noteq> v \<or> a \<noteq> d \<or> a \<noteq> s then False else walk_in_unison arr vec dl sl)"
| "walk_in_unison arr (v # vec) dl sl = False"

definition books_sl_list_size :: "'b BookList \<Rightarrow> nat" where
  "books_sl_list_size bl = length (books_sl_list bl)"

definition containers_are_consistent :: "'b BookList \<Rightarrow> bool" where
  "containers_are_consistent bl =
     (if books_array_size bl \<noteq> length (books_vector bl)
         \<or> books_array_size bl \<noteq> length (books_dl_list bl)
         \<or> books_array_size bl \<noteq> books_sl_list_size bl
      then False
      else walk_in_unison (books_array bl) (books_vector bl)
             (books_dl_list bl) (books_sl_list bl))"

subsection \<open>Queries\<close>

definition size_bl :: "'b BookList \<Rightarrow> nat result" where
  "size_bl bl =
     (if \<not> containers_are_consistent bl then Throws InvalidInternalStateException
      else Value (length (books_vector bl)))"

text \<open>\<^verbatim>\<open>std::find\<close>, as the distance of the iterator it returns from \<^verbatim>\<open>begin()\<close>.\<close>

fun std_find :: "'b list \<Rightarrow> 'b \<Rightarrow> nat" where
  "std_find [] book = 0"
| "std_find (v # vec) book = (if v = book then 0 else Suc (std_find vec book))"

definition find_bl :: "'b BookList \<Rightarrow> 'b \<Rightarrow> nat result" where
  "find_bl bl book =
     (if \<not> containers_are_consistent bl then Throws InvalidInternalStateException
      else let iter = std_find (books_vector bl) book
           in if iter \<noteq> length (books_vector bl) then Value iter else size_bl bl)"

subsection \<open>Insertion\<close>

text \<open>
  The loop counter of the array shift is an \<^verbatim>\<open>int\<close> initialised from a
  \<^verbatim>\<open>std::size_t\<close> and compared with a \<^verbatim>\<open>std::size_t\<close>: the initialisation
  narrows to 32 bits, the comparison converts the counter back to 64 bits. A
  subscript that is not a slot of the array is undefined behaviour (\<open>None\<close>).
\<close>

definition INT_MAX :: nat where
  "INT_MAX = 2 ^ 31 - 1"

definition int_of_size_t :: "nat \<Rightarrow> int" where
  "int_of_size_t n =
     (let m = int n mod 2 ^ 32 in if m < 2 ^ 31 then m else m - 2 ^ 32)"

definition size_t_of_int :: "int \<Rightarrow> nat" where
  "size_t_of_int i = nat (i mod 2 ^ 64)"

function shift_right :: "'b list \<Rightarrow> int \<Rightarrow> nat \<Rightarrow> 'b list option" where
  "shift_right arr i offset_from_top =
     (if size_t_of_int i > offset_from_top
      then (if 0 < i \<and> i < int (length arr)
            then shift_right (arr[nat i := arr ! nat (i - 1)]) (i - 1) offset_from_top
            else None)
      else Some arr)"
  by pat_completeness auto
termination
  by (relation "measure (\<lambda>(arr, i, offset_from_top). nat i)") auto

declare shift_right.simps [simp del]

text \<open>
  \<^verbatim>\<open>std::vector::insert\<close> at \<^verbatim>\<open>begin() + offset\<close> opens a gap in the contiguous
  storage. The linked lists are walked node by node: \<^verbatim>\<open>std::list::insert\<close> puts the
  book before the node reached from \<^verbatim>\<open>begin()\<close>, \<^verbatim>\<open>std::forward_list::insert_after\<close>
  puts it after the node reached from \<^verbatim>\<open>before_begin()\<close>. Advancing an iterator
  past the end of its list is undefined.
\<close>

definition vector_insert :: "nat \<Rightarrow> 'b \<Rightarrow> 'b list \<Rightarrow> 'b list option" where
  "vector_insert offset book vec =
     (if offset \<le> length vec then Some (take offset vec @ book # drop offset vec) else None)"

fun list_insert :: "nat \<Rightarrow> 'b \<Rightarrow> 'b list \<Rightarrow> 'b list option" where
  "list_insert 0 book dl = Some (book # dl)"
| "list_insert (Suc k) book [] = None"
| "list_insert (Suc k) book (d # dl) = map_option ((#) d) (list_insert k book dl)"

text \<open>
  In \<open>forward_list_insert_after\<close> the iterator stands on the sentinel before the
  first node when the count is \<open>0\<close>, and on a node of the list otherwise.
\<close>

fun insert_after_node :: "nat \<Rightarrow> 'b \<Rightarrow> 'b \<Rightarrow> 'b list \<Rightarrow> 'b list option" where
  "insert_after_node 0 book node rest = Some (node # book # rest)"
| "insert_after_node (Suc k) book node [] = None"
| "insert_after_node (Suc k) book node (n # rest) =
     map_option ((#) node) (insert_after_node k book n rest)"

fun forward_list_insert_after :: "nat \<Rightarrow> 'b \<Rightarrow> 'b list \<Rightarrow> 'b list option" where
  "forward_list_insert_after 0 book sl = Some (book # sl)"
| "forward_list_insert_after (Suc k) book [] = None"
| "forward_list_insert_after (Suc k) book (n # rest) = insert_after_node k book n rest"

definition insert_at :: "'b \<Rightarrow> nat \<Rightarrow> 'b BookList \<Rightarrow> 'b outcome" where
  "insert_at book offset_from_top bl =
     (case size_bl bl of Throws e \<Rightarrow> Thrown e bl | Undefined_value \<Rightarrow> Undefined | Value n \<Rightarrow>
      if offset_from_top > n then Thrown InvalidOffsetException bl else
      case find_bl bl book of Throws e \<Rightarrow> Thrown e bl | Undefined_value \<Rightarrow> Undefined | Value pos \<Rightarrow>
      case size_bl bl of Throws e \<Rightarrow> Thrown e bl | Undefined_value \<Rightarrow> Undefined | Value n' \<Rightarrow>
      if pos \<noteq> n' then Returned bl else
      if books_array_size bl \<ge> length (books_array bl)
      then Thrown CapacityExceededException bl else
      case shift_right (books_array bl) (int_of_size_t (books_array_size bl))
             offset_from_top of None \<Rightarrow> Undefined | Some arr \<Rightarrow>
      case vector_insert offset_from_top book (books_vector bl) of
        None \<Rightarrow> Undefined | Some vec \<Rightarrow>
      case forward_list_insert_after offset_from_top book (books_sl_list bl) of
        None \<Rightarrow> Undefined | Some sl \<Rightarrow>
      case list_insert offset_from_top book (books_dl_list bl) of
        None \<Rightarrow> Undefined | Some dl \<Rightarrow>
      let bl' = bl\<lparr>books_array := arr[offset_from_top := book],
                   books_array_size := books_array_size bl + 1,
                   books_vector := vec,
                   books_sl_list := sl,
                   books_dl_list := dl\<rparr>
      in if \<not> containers_are_consistent bl'
         then Thrown InvalidInternalStateException bl' else Returned bl')"

definition insert_pos :: "'b \<Rightarrow> Position \<Rightarrow> 'b BookList \<Rightarrow> 'b outcome" where
  "insert_pos book position bl =
     (case position of
        TOP \<Rightarrow> insert_at book 0 bl
      | BOTTOM \<Rightarrow> (case size_bl bl of Throws e \<Rightarrow> Thrown e bl | Undefined_value \<Rightarrow> Undefined
                   | Value n \<Rightarrow> insert_at book n bl))"

subsection \<open>Removal\<close>

text \<open>
  \<^verbatim>\<open>std::move(first, last, d_first)\<close> with \<^verbatim>\<open>last = books_array_.end()\<close> move-assigns
  slot by slot up to the capacity of the array, not only up to its element count.
  A move assignment gives the destination the value of the source; what it leaves
  in the source is the business of \<^verbatim>\<open>Book\<close>: \<open>moved dst src\<close>, for the values of
  both slots before the assignment.
\<close>

function std_move :: "('b \<Rightarrow> 'b \<Rightarrow> 'b) \<Rightarrow> 'b list \<Rightarrow> nat \<Rightarrow> nat \<Rightarrow> 'b list option" where
  "std_move moved arr first d_first =
     (if first < length arr
      then (if d_first < length arr
            then std_move moved
                   (arr[d_first := arr ! first, first := moved (arr ! d_first) (arr ! first)])
                   (first + 1) (d_first + 1)
            else None)
      else Some arr)"
  by pat_completeness auto
termination
  by (relation "measure (\<lambda>(moved, arr, first, d_first). length arr - first)") auto

declare std_move.simps [simp del]

definition vector_erase :: "nat \<Rightarrow> 'b list \<Rightarrow> 'b list option" where
  "vector_erase offset vec =
     (if offset < length vec then Some (take offset vec @ drop (offset + 1) vec) else None)"

fun list_erase :: "nat \<Rightarrow> 'b list \<Rightarrow> 'b list option" where
  "list_erase k [] = None"
| "list_erase 0 (d # dl) = Some dl"
| "list_erase (Suc k) (d # dl) = map_option ((#) d) (list_erase k dl)"

fun erase_after_node :: "nat \<Rightarrow> 'b \<Rightarrow> 'b list \<Rightarrow> 'b list option" where
  "erase_after_node k node [] = None"
| "erase_after_node 0 node (n # rest) = Some (node # rest)"
| "erase_after_node (Suc k) node (n # rest) = map_option ((#) node) (erase_after_node k n rest)"

fun forward_list_erase_after :: "nat \<Rightarrow> 'b list \<Rightarrow> 'b list option" where
  "forward_list_erase_after k [] = None"
| "forward_list_erase_after 0 (n # rest) = Some rest"
| "forward_list_erase_after (Suc k) (n # rest) = erase_after_node k n rest"

definition remove_at :: "('b \<Rightarrow> 'b \<Rightarrow> 'b) \<Rightarrow> nat \<Rightarrow> 'b BookList \<Rightarrow> 'b outcome" where
  "remove_at moved offset_from_top bl =
     (case size_bl bl of Throws e \<Rightarrow> Thrown e bl | Undefined_value \<Rightarrow> Undefined | Value n \<Rightarrow>
      if offset_from_top \<ge> n then Returned bl else
      if offset_from_top + 1 > length (books_array bl) then Undefined else
      case std_move moved (books_array bl) (offset_from_top + 1) offset_from_top of
        None \<Rightarrow> Undefined | Some arr \<Rightarrow>
      case vector_erase offset_from_top (books_vector bl) of
        None \<Rightarrow> Undefined | Some vec \<Rightarrow>
      case forward_list_erase_after offset_from_top (books_sl_list bl) of
        None \<Rightarrow> Undefined | Some sl \<Rightarrow>
      case list_erase offset_from_top (books_dl_list bl) of
        None \<Rightarrow> Undefined | Some dl \<Rightarrow>
      let bl' = bl\<lparr>books_array := arr,
                   books_array_size := books_array_size bl - 1,
                   books_vector := vec,
                   books_sl_list := sl,
                   books_dl_list := dl\<rparr>
      in if \<not> containers_are_consistent bl'
         then Thrown InvalidInternalStateException bl' else Returned bl')"

definition remove_book :: "('b \<Rightarrow> 'b \<Rightarrow> 'b) \<Rightarrow> 'b \<Rightarrow> 'b BookList \<Rightarrow> 'b outcome" where
  "remove_book moved book bl =
     (case find_bl bl book of Throws e \<Rightarrow> Thrown e bl | Undefined_value \<Rightarrow> Undefined
      | Value pos \<Rightarrow> remove_at moved pos bl)"

subsection \<open>Compound mutators\<close>

definition checked :: "'b BookList \<Rightarrow> 'b outcome" where
  "checked bl =
     (if \<not> containers_are_consistent bl
      then Thrown InvalidInternalStateException bl else Returned bl)"

definition move_to_top :: "('b \<Rightarrow> 'b \<Rightarrow> 'b) \<Rightarrow> 'b \<Rightarrow> 'b BookList \<Rightarrow> 'b outcome" where
  "move_to_top moved book bl =
     (case find_bl bl book of Throws e \<Rightarrow> Thrown e bl | Undefined_value \<Rightarrow> Undefined | Value pos \<Rightarrow>
      case size_bl bl of Throws e \<Rightarrow> Thrown e bl | Undefined_value \<Rightarrow> Undefined | Value n \<Rightarrow>
      if pos \<noteq> n
      then (case remove_book moved book bl of
              Returned bl1 \<Rightarrow>
                (case insert_at book 0 bl1 of Returned bl2 \<Rightarrow> checked bl2 | raised \<Rightarrow> raised)
            | raised \<Rightarrow> raised)
      else checked bl)"

text \<open>The range-based loops that insert book after book at the bottom.\<close>

fun insert_each :: "'b list \<Rightarrow> 'b BookList \<Rightarrow> 'b outcome" where
  "insert_each [] bl = Returned bl"
| "insert_each (book # books) bl =
     (case insert_pos book BOTTOM bl of
        Returned bl' \<Rightarrow> insert_each books bl'
      | raised \<Rightarrow> raised)"

definition BookList_default :: "nat \<Rightarrow> 'b \<Rightarrow> 'b BookList" where
  "BookList_default capacity default_book =
     \<lparr>books_array = replicate capacity default_book, books_array_size = 0,
      books_vector = [], books_dl_list = [], books_sl_list = []\<rparr>"

definition BookList_init :: "nat \<Rightarrow> 'b \<Rightarrow> 'b list \<Rightarrow> 'b outcome" where
  "BookList_init capacity default_book init_list =
     (case insert_each init_list (BookList_default capacity default_book) of
        Returned bl \<Rightarrow> checked bl | raised \<Rightarrow> raised)"

definition plus_eq_init :: "'b list \<Rightarrow> 'b BookList \<Rightarrow> 'b outcome" where
  "plus_eq_init rhs bl =
     (case insert_each rhs bl of Returned bl' \<Rightarrow> checked bl' | raised \<Rightarrow> raised)"

text \<open>
  \<^verbatim>\<open>operator+=(const BookList&)\<close> walks the vector of its argument. When the
  argument is the list itself every book met is already present and nothing is
  inserted, so the walk over a snapshot of the vector is the walk of the C++.
\<close>

definition plus_eq :: "'b BookList \<Rightarrow> 'b BookList \<Rightarrow> 'b outcome" where
  "plus_eq rhs bl =
     (case insert_each (books_vector rhs) bl of Returned bl' \<Rightarrow> checked bl' | raised \<Rightarrow> raised)"

text \<open>
  \<open>swap_bl\<close> returns the new states of \<^verbatim>\<open>*this\<close> and of \<^verbatim>\<open>rhs\<close>. Swapping an
  object with itself returns at once in the C++; on values, exchanging a state
  with itself gives the same state.
\<close>

definition swap_bl :: "'b BookList \<Rightarrow> 'b BookList \<Rightarrow> 'b BookList \<times> 'b BookList" where
  "swap_bl this rhs =
     (this\<lparr>books_array := books_array rhs, books_vector := books_vector rhs,
           books_dl_list := books_dl_list rhs, books_sl_list := books_sl_list rhs,
           books_array_size := books_array_size rhs\<rparr>,
      rhs\<lparr>books_array := books_array this, books_vector := books_vector this,
          books_dl_list := books_dl_list this, books_sl_list := books_sl_list this,
          books_array_size := books_array_size this\<rparr>)"

subsection \<open>Comparison\<close>

text \<open>
  The loop of \<^verbatim>\<open>compare\<close> walks this list's vector and advances the other
  vector's iterator with it; it is entered only with vectors of one length.
\<close>

fun compare_walk :: "'b::linorder list \<Rightarrow> 'b list \<Rightarrow> int result" where
  "compare_walk [] other = Value 0"
| "compare_walk (v # vec) [] = Undefined_value"
| "compare_walk (v # vec) (w # other) =
     (if v < w then Value (- 1) else if v > w then Value 1 else compare_walk vec other)"

definition compare_bl :: "'b::linorder BookList \<Rightarrow> 'b BookList \<Rightarrow> int result" where
  "compare_bl this other =
     (if \<not> containers_are_consistent this \<or> \<not> containers_are_consistent other
      then Throws InvalidInternalStateException else
      case size_bl this of Throws e \<Rightarrow> Throws e | Undefined_value \<Rightarrow> Undefined_value | Value n \<Rightarrow>
      case size_bl other of Throws e \<Rightarrow> Throws e | Undefined_value \<Rightarrow> Undefined_value | Value m \<Rightarrow>
      if n \<noteq> m \<and> n < m then Value (- 1)
      else if n \<noteq> m \<and> n > m then Value 1
      else compare_walk (books_vector this) (books_vector other))"

definition against_zero :: "(int \<Rightarrow> bool) \<Rightarrow> int result \<Rightarrow> bool result" where
  "against_zero test r =
     (case r of Value c \<Rightarrow> Value (test c) | Throws e \<Rightarrow> Throws e
      | Undefined_value \<Rightarrow> Undefined_value)"

definition operator_eq :: "'b::linorder BookList \<Rightarrow> 'b BookList \<Rightarrow> bool result" where
  "operator_eq lhs rhs = against_zero (\<lambda>c. c = 0) (compare_bl lhs rhs)"

definition operator_ne :: "'b::linorder BookList \<Rightarrow> 'b BookList \<Rightarrow> bool result" where
  "operator_ne lhs rhs = against_zero (\<lambda>c. c \<noteq> 0) (compare_bl lhs rhs)"

definition operator_lt :: "'b::linorder BookList \<Rightarrow> 'b BookList \<Rightarrow> bool result" where
  "operator_lt lhs rhs = against_zero (\<lambda>c. c < 0) (compare_bl lhs rhs)"

definition operator_le :: "'b::linorder BookList \<Rightarrow> 'b BookList \<Rightarrow> bool result" where
  "operator_le lhs rhs = against_zero (\<lambda>c. c \<le> 0) (compare_bl lhs rhs)"

definition operator_gt :: "'b::linorder BookList \<Rightarrow> 'b BookList \<Rightarrow> bool result" where
  "operator_gt lhs rhs = against_zero (\<lambda>c. c > 0) (compare_bl lhs rhs)"

definition operator_ge :: "'b::linorder BookList \<Rightarrow> 'b BookList \<Rightarrow> bool result" where
  "operator_ge lhs rhs = against_zero (\<lambda>c. c \<ge> 0) (compare_bl lhs rhs)"

subsection \<open>Streams\<close>

text \<open>
  An output stream is the text written to it. An input stream is the text not
  yet read and whether the stream is still \<^verbatim>\<open>good()\<close>: an extraction from a stream
  that is not good does nothing, one that fails or reaches the end of the text
  leaves the stream not good. Streams are taken with their default formatting
  (decimal numbers, leading white space skipped, fields padded on the left with
  blanks).
\<close>

record istream =
  buffer :: string
  good :: bool

definition isspace :: "char \<Rightarrow> bool" where
  "isspace c = (c = CHR 0x20 \<or> (9 \<le> (of_char c :: nat) \<and> (of_char c :: nat) \<le> 13))"

definition isdigit :: "char \<Rightarrow> bool" where
  "isdigit c = (48 \<le> (of_char c :: nat) \<and> (of_char c :: nat) \<le> 57)"

definition digit_char :: "nat \<Rightarrow> char" where
  "digit_char d = char_of (48 + d)"

function decimal :: "nat \<Rightarrow> string" where
  "decimal n = (if n < 10 then [digit_char n] else decimal (n div 10) @ [digit_char (n mod 10)])"
  by pat_completeness auto
termination
  by (relation "measure id") auto

declare decimal.simps [simp del]

definition digits_value :: "string \<Rightarrow> nat" where
  "digits_value ds = foldl (\<lambda>acc c. 10 * acc + (of_char c - 48)) 0 ds"

definition setw :: "nat \<Rightarrow> string \<Rightarrow> string" where
  "setw w field = replicate (w - length field) (CHR 0x20) @ field"

text \<open>
  \<^verbatim>\<open>stream >> count\<close> for a \<^verbatim>\<open>std::size_t\<close>: white space is skipped, an optional
  sign and the longest run of digits are read. The result is the value stored in
  \<^verbatim>\<open>count\<close>, or \<open>None\<close> when nothing is stored (the stream was not good, or held
  nothing but white space). Without a digit \<open>0\<close> is stored and the extraction
  fails; a value that does not fit 64 bits is stored as the largest one and the
  extraction fails; a minus sign negates modulo \<open>2 ^ 64\<close>.
\<close>

definition extract_size_t :: "istream \<Rightarrow> nat option \<times> istream" where
  "extract_size_t stream =
     (if \<not> good stream then (None, stream) else
      let b = dropWhile isspace (buffer stream) in
      if b = [] then (None, \<lparr>buffer = [], good = False\<rparr>) else
      let negative = (hd b = CHR ''-'');
          b1 = (if hd b = CHR ''-'' \<or> hd b = CHR ''+'' then tl b else b);
          ds = takeWhile isdigit b1;
          rest = dropWhile isdigit b1;
          v = digits_value ds
      in if ds = [] then (Some 0, \<lparr>buffer = rest, good = False\<rparr>)
         else if v \<ge> 2 ^ 64 then (Some (2 ^ 64 - 1), \<lparr>buffer = rest, good = False\<rparr>)
         else (Some (if negative then (2 ^ 64 - v) mod 2 ^ 64 else v),
               \<lparr>buffer = rest, good = (rest \<noteq> [])\<rparr>))"

definition ignore :: "nat \<Rightarrow> istream \<Rightarrow> istream" where
  "ignore n stream =
     (if \<not> good stream then stream
      else if n \<le> length (buffer stream) then stream\<lparr>buffer := drop n (buffer stream)\<rparr>
      else \<lparr>buffer = [], good = False\<rparr>)"

subsection \<open>Insertion and extraction operators\<close>

text \<open>
  \<^verbatim>\<open>operator<<\<close> writes the size, then for each book of the singly linked list a
  new line, the running \<^verbatim>\<open>int count\<close> in a field of width 5, a colon and two
  blanks, and the book as \<open>put_book\<close> (the insertion operator of \<^verbatim>\<open>Book\<close>) writes
  it. Incrementing \<^verbatim>\<open>count\<close> beyond the largest \<^verbatim>\<open>int\<close> is undefined.
\<close>

fun put_entries :: "('b \<Rightarrow> string) \<Rightarrow> int \<Rightarrow> 'b list \<Rightarrow> string option" where
  "put_entries put_book count [] = Some []"
| "put_entries put_book count (book # books) =
     (if count \<ge> 2 ^ 31 - 1 then None
      else map_option
             (\<lambda>text. [CHR 0x0A] @ setw 5 (decimal (nat count)) @ '':  '' @ put_book book @ text)
             (put_entries put_book (count + 1) books))"

definition operator_lshift :: "('b \<Rightarrow> string) \<Rightarrow> 'b BookList \<Rightarrow> string result" where
  "operator_lshift put_book book_list =
     (if \<not> containers_are_consistent book_list then Throws InvalidInternalStateException else
      case size_bl book_list of Throws e \<Rightarrow> Throws e | Undefined_value \<Rightarrow> Undefined_value
      | Value n \<Rightarrow>
      case put_entries put_book 0 (books_sl_list book_list) of None \<Rightarrow> Undefined_value
      | Some text \<Rightarrow> Value (decimal n @ text @ [CHR 0x0A]))"

text \<open>
  \<^verbatim>\<open>operator>>\<close> reads the count, drops one character and then, as long as the
  count differs from the length of the singly linked list, drops four characters,
  extracts a book into a fresh \<^verbatim>\<open>temp_book\<close> and inserts it at the bottom.
  \<open>get_book\<close> is the declaration of \<^verbatim>\<open>temp_book\<close> followed by the extraction
  operator of \<^verbatim>\<open>Book\<close>: it gives the value of \<^verbatim>\<open>temp_book\<close> and the stream after the
  extraction. The loop need not end, so it is a partial function: \<open>None\<close> is a
  loop that runs forever. A count that was never stored is read uninitialised.
\<close>

partial_function (option) extract_books ::
  "(istream \<Rightarrow> 'b \<times> istream) \<Rightarrow> nat \<Rightarrow> istream \<Rightarrow> 'b BookList \<Rightarrow> ('b outcome \<times> istream) option"
where
  "extract_books get_book count stream book_list =
     (if count \<noteq> books_sl_list_size book_list
      then (case get_book (ignore 4 stream) of (temp_book, stream') \<Rightarrow>
              (case insert_pos temp_book BOTTOM book_list of
                 Returned book_list' \<Rightarrow> extract_books get_book count stream' book_list'
               | Thrown e book_list' \<Rightarrow> Some (Thrown e book_list', stream')
               | Undefined \<Rightarrow> Some (Undefined, stream')))
      else Some (Returned book_list, stream))"

definition operator_rshift ::
  "(istream \<Rightarrow> 'b \<times> istream) \<Rightarrow> istream \<Rightarrow> 'b BookList \<Rightarrow> ('b outcome \<times> istream) option"
where
  "operator_rshift get_book stream book_list =
     (if \<not> containers_are_consistent book_list
      then Some (Thrown InvalidInternalStateException book_list, stream) else
      case extract_size_t stream of
        (None, stream1) \<Rightarrow> Some (Undefined, stream1)
      | (Some count, stream1) \<Rightarrow> extract_books get_book count (ignore 1 stream1) book_list)"

declare extract_books.simps [code]

subsection \<open>Sequences of calls\<close>

text \<open>
  The state a call leaves behind for the next call: the state returned, or the
  state at the \<^verbatim>\<open>throw\<close> for a caller that catches the exception.
\<close>

fun left_in :: "'b outcome \<Rightarrow> 'b BookList option" where
  "left_in (Returned bl) = Some bl"
| "left_in (Thrown e bl) = Some bl"
| "left_in Undefined = None"

text \<open>\<open>after_inserts bl bl'\<close>: some sequence of calls of either \<^verbatim>\<open>insert\<close> leads from \<open>bl\<close> to \<open>bl'\<close>.\<close>

inductive after_inserts :: "'b BookList \<Rightarrow> 'b BookList \<Rightarrow> bool" where
  no_insert: "after_inserts bl bl"
| offset_insert:
    "after_inserts bl bl1 \<Longrightarrow> left_in (insert_at book offset bl1) = Some bl2 \<Longrightarrow>
     after_inserts bl bl2"
| position_insert:
    "after_inserts bl bl1 \<Longrightarrow> left_in (insert_pos book position bl1) = Some bl2 \<Longrightarrow>
     after_inserts bl bl2"

subsection \<open>Sample lists\<close>

text \<open>
  Books are natural numbers in the closed instances below. \<open>shelf3\<close> is a list
  of three books in an array of capacity 3, \<open>shelf5\<close> the same books in an array
  of capacity 5 whose unused slots hold the book \<open>0\<close>.
\<close>

definition shelf3 :: "nat BookList" where
  "shelf3 = \<lparr>books_array = [11, 12, 13], books_array_size = 3,
             books_vector = [11, 12, 13], books_dl_list = [11, 12, 13],
             books_sl_list = [11, 12, 13]\<rparr>"

definition shelf5 :: "nat BookList" where
  "shelf5 = \<lparr>books_array = [11, 12, 13, 0, 0], books_array_size = 3,
             books_vector = [11, 12, 13], books_dl_list = [11, 12, 13],
             books_sl_list = [11, 12, 13]\<rparr>"

definition shelf5_14 :: "nat BookList" where
  "shelf5_14 = \<lparr>books_array = [11, 12, 13, 14, 0], books_array_size = 4,
             books_vector = [11, 12, 13, 14], books_dl_list = [11, 12, 13, 14],
             books_sl_list = [11, 12, 13, 14]\<rparr>"

definition shelf3_swapped :: "nat BookList" where
  "shelf3_swapped = \<lparr>books_array = [11, 13, 12], books_array_size = 3,
             books_vector = [11, 13, 12], books_dl_list = [11, 13, 12],
             books_sl_list = [11, 13, 12]\<rparr>"

text \<open>
  \<open>keeps_invariant bl r\<close>: the outcome \<open>r\<close> of a call on the list \<open>bl\<close> is
  defined, and the list it leaves is consistent, has an array of the same
  capacity, and has no duplicates if \<open>bl\<close> had none.
\<close>

definition keeps_invariant :: "'b BookList \<Rightarrow> 'b outcome \<Rightarrow> bool" where
  "keeps_invariant bl r \<longleftrightarrow>
     r \<noteq> Undefined \<and>
     (\<forall>bl'. left_in r = Some bl' \<longrightarrow>
        containers_are_consistent bl' \<and> length (books_array bl') = length (books_array bl)
        \<and> (distinct (books_vector bl) \<longrightarrow> distinct (books_vector bl')))"

text \<open>
  The lists a program can hold: the default-constructed list and every list left
  by a call of a public mutator on such lists, for a capacity, a default book,
  a move assignment and a book extraction fixed by the absent headers.
\<close>

inductive reachable ::
  "nat \<Rightarrow> 'b \<Rightarrow> ('b \<Rightarrow> 'b \<Rightarrow> 'b) \<Rightarrow> (istream \<Rightarrow> 'b \<times> istream) \<Rightarrow> 'b BookList \<Rightarrow> bool"
  for capacity default_book moved get_book
where
  constructed:
    "reachable capacity default_book moved get_book (BookList_default capacity default_book)"
| by_insert_at:
    "reachable capacity default_book moved get_book bl \<Longrightarrow>
     left_in (insert_at book offset bl) = Some bl' \<Longrightarrow>
     reachable capacity default_book moved get_book bl'"
| by_insert_pos:
    "reachable capacity default_book moved get_book bl \<Longrightarrow>
     left_in (insert_pos book position bl) = Some bl' \<Longrightarrow>
     reachable capacity default_book moved get_book bl'"
| by_remove_at:
    "reachable capacity default_book moved get_book bl \<Longrightarrow>
     left_in (remove_at moved offset bl) = Some bl' \<Longrightarrow>
     reachable capacity default_book moved get_book bl'"
| by_remove_book:
    "reachable capacity default_book moved get_book bl \<Longrightarrow>
     left_in (remove_book moved book bl) = Some bl' \<Longrightarrow>
     reachable capacity default_book moved get_book bl'"
| by_move_to_top:
    "reachable capacity default_book moved get_book bl \<Longrightarrow>
     left_in (move_to_top moved book bl) = Some bl' \<Longrightarrow>
     reachable capacity default_book moved get_book bl'"
| by_plus_eq:
    "reachable capacity default_book moved get_book bl \<Longrightarrow>
     reachable capacity default_book moved get_book rhs \<Longrightarrow>
     left_in (plus_eq rhs bl) = Some bl' \<Longrightarrow>
     reachable capacity default_book moved get_book bl'"
| by_plus_eq_init:
    "reachable capacity default_book moved get_book bl \<Longrightarrow>
     left_in (plus_eq_init books bl) = Some bl' \<Longrightarrow>
     reachable capacity default_book moved get_book bl'"
| by_swap_this:
    "reachable capacity default_book moved get_book bl \<Longrightarrow>
     reachable capacity default_book moved get_book rhs \<Longrightarrow>
     reachable capacity default_book moved get_book (fst (swap_bl bl rhs))"
| by_swap_rhs:
    "reachable capacity default_book moved get_book bl \<Longrightarrow>
     reachable capacity default_book moved get_book rhs \<Longrightarrow>
     reachable capacity default_book moved get_book (snd (swap_bl bl rhs))"
| by_rshift:
    "reachable capacity default_book moved get_book bl \<Longrightarrow>
     operator_rshift get_book stream bl = Some (r, stream') \<Longrightarrow>
     left_in r = Some bl' \<Longrightarrow>
     reachable capacity default_book moved get_book bl'"


definition sample_get_book :: "istream \<Rightarrow> nat \<times> istream" where
  "sample_get_book stream =
     (if \<not> good stream then (0, stream) else
      let b = dropWhile (\<lambda>c. c \<noteq> CHR '':'') (buffer stream) in
      if b = [] then (0, \<lparr>buffer = [], good = False\<rparr>) else
      let b1 = dropWhile isspace (tl b);
          ds = takeWhile isdigit b1;
          rest = dropWhile isdigit b1
      in if ds = [] then (0, \<lparr>buffer = rest, good = False\<rparr>)
         else (digits_value ds, \<lparr>buffer = rest, good = (rest \<noteq> [])\<rparr>))"

text \<open>
  What \<^verbatim>\<open>operator>>\<close> needs from the extraction operator of \<^verbatim>\<open>Book\<close> to read
  what \<^verbatim>\<open>operator<<\<close> wrote. After the four characters it drops, the rest of the
  index label (blanks and digits), the colon and the two blanks are still in the
  stream: \<open>reads_back put_book get_book books\<close> says that the extraction, applied
  to such a rest of a label, the text of one of the \<open>books\<close> and a new line, gives
  that book and stops before the new line.
\<close>

definition reads_back ::
  "('b \<Rightarrow> string) \<Rightarrow> (istream \<Rightarrow> 'b \<times> istream) \<Rightarrow> 'b set \<Rightarrow> bool" where
  "reads_back put_book get_book books \<longleftrightarrow>
     (\<forall>book \<in> books. \<forall>label rest.
        list_all (\<lambda>c. c = CHR 0x20 \<or> isdigit c) label \<longrightarrow>
        get_book \<lparr>buffer = label @ '':  '' @ put_book book @ CHR 0x0A # rest, good = True\<rparr>
          = (book, \<lparr>buffer = CHR 0x0A # rest, good = True\<rparr>))"


text \<open>
  Modelled from the spec: the stream insertion and extraction operators of
  \<^verbatim>\<open>Book\<close>, which \<^verbatim>\<open>book.hpp\<close> declares and the sources do not contain. The spec
  gives an Item a textual encode/decode form and makes the index label of an
  entry part of the format of the list, not of the Item: the extraction of an
  Item is the inverse of its insertion. Here a book is a natural number. Its
  insertion writes it in decimal. Its extraction skips leading white space, as
  every formatted extraction does, reads the digits of one number and stops
  behind them; when it fails, the book keeps the value \<open>0\<close> of a
  default-constructed book.
\<close>

definition plain_put_book :: "nat \<Rightarrow> string" where
  "plain_put_book book = decimal book"

definition plain_get_book :: "istream \<Rightarrow> nat \<times> istream" where
  "plain_get_book stream =
     (if \<not> good stream then (0, stream) else
      let b = dropWhile isspace (buffer stream) in
      if b = [] then (0, \<lparr>buffer = [], good = False\<rparr>) else
      let ds = takeWhile isdigit b;
          rest = dropWhile isdigit b
      in if ds = [] then (0, \<lparr>buffer = rest, good = False\<rparr>)
         else (digits_value ds, \<lparr>buffer = rest, good = (rest \<noteq> [])\<rparr>))"

text \<open>The four numbers that label the entries of a list of four books, as a list of books.\<close>

definition shelf5_labels :: "nat BookList" where
  "shelf5_labels = \<lparr>books_array = [0, 1, 2, 3, 0], books_array_size = 4,
             books_vector = [0, 1, 2, 3], books_dl_list = [0, 1, 2, 3],
             books_sl_list = [0, 1, 2, 3]\<rparr>"

section \<open>Properties\<close>

subsection \<open>Consistency, size and find\<close>

lemma walk_in_unison_iff:
  "length dl = length vec \<Longrightarrow> length sl = length vec \<Longrightarrow>
   walk_in_unison arr vec dl sl \<longleftrightarrow>
     length vec \<le> length arr \<and> take (length vec) arr = vec \<and> dl = vec \<and> sl = vec"
proof (induction vec arbitrary: arr dl sl)
  case Nil
  then show ?case by simp
next
  case (Cons v vec)
  from Cons.prems obtain d dl' s sl' where dl: "dl = d # dl'" and sl: "sl = s # sl'"
    by (metis length_Suc_conv)
  show ?case
  proof (cases arr)
    case Nil
    then show ?thesis using dl sl by simp
  next
    case (Cons a arr')
    have "walk_in_unison arr' vec dl' sl' \<longleftrightarrow>
            length vec \<le> length arr' \<and> take (length vec) arr' = vec \<and> dl' = vec \<and> sl' = vec"
      using Cons.prems dl sl by (intro Cons.IH) simp_all
    then show ?thesis using Cons dl sl by auto
  qed
qed

lemma consistent_iff:
  "containers_are_consistent bl \<longleftrightarrow>
     books_array_size bl = length (books_vector bl) \<and>
     length (books_vector bl) \<le> length (books_array bl) \<and>
     take (length (books_vector bl)) (books_array bl) = books_vector bl \<and>
     books_dl_list bl = books_vector bl \<and> books_sl_list bl = books_vector bl"
  unfolding containers_are_consistent_def books_sl_list_size_def
  by (auto simp: walk_in_unison_iff)

lemma std_find_le: "std_find vec book \<le> length vec"
  by (induction vec) auto

lemma std_find_absent: "std_find vec book = length vec \<longleftrightarrow> book \<notin> set vec"
proof (induction vec)
  case Nil
  show ?case by simp
next
  case (Cons v vec)
  have "std_find vec book \<le> length vec" by (rule std_find_le)
  with Cons show ?case by auto
qed

lemma std_find_present:
  "book \<in> set vec \<Longrightarrow> std_find vec book < length vec \<and> vec ! std_find vec book = book
     \<and> (\<forall>j < std_find vec book. vec ! j \<noteq> book)"
proof (induction vec)
  case Nil
  then show ?case by simp
next
  case (Cons v vec)
  show ?case
  proof (cases "v = book")
    case True
    then show ?thesis by simp
  next
    case False
    with Cons have IH: "std_find vec book < length vec \<and> vec ! std_find vec book = book
     \<and> (\<forall>j < std_find vec book. vec ! j \<noteq> book)" by simp
    show ?thesis using False IH by (auto simp: nth_Cons split: nat.splits)
  qed
qed

lemma size_bl_consistent:
  "containers_are_consistent bl \<Longrightarrow> size_bl bl = Value (length (books_vector bl))"
  by (simp add: size_bl_def)

lemma size_bl_inconsistent:
  "\<not> containers_are_consistent bl \<Longrightarrow> size_bl bl = Throws InvalidInternalStateException"
  by (simp add: size_bl_def)

lemma find_bl_consistent:
  "containers_are_consistent bl \<Longrightarrow> find_bl bl book = Value (std_find (books_vector bl) book)"
  by (simp add: find_bl_def size_bl_def Let_def)

lemma list_insert_eq:
  "offset \<le> length dl \<Longrightarrow> list_insert offset book dl = Some (take offset dl @ book # drop offset dl)"
proof (induction offset book dl rule: list_insert.induct)
  case (1 book dl)
  show ?case by simp
next
  case (2 k book)
  then show ?case by simp
next
  case (3 k book d dl)
  then show ?case by simp
qed

lemma insert_after_node_eq:
  "k \<le> length rest \<Longrightarrow>
   insert_after_node k book node rest = Some (node # take k rest @ book # drop k rest)"
proof (induction k book node rest rule: insert_after_node.induct)
  case (1 book node rest)
  show ?case by simp
next
  case (2 k book node)
  then show ?case by simp
next
  case (3 k book node n rest)
  then show ?case by simp
qed

lemma forward_list_insert_after_eq:
  "offset \<le> length sl \<Longrightarrow>
   forward_list_insert_after offset book sl = Some (take offset sl @ book # drop offset sl)"
proof (cases offset)
  case 0
  then show ?thesis by simp
next
  case (Suc k)
  assume le: "offset \<le> length sl"
  with Suc obtain n rest where sl: "sl = n # rest" by (cases sl) auto
  with le Suc have "k \<le> length rest" by simp
  then show ?thesis using Suc sl by (simp add: insert_after_node_eq)
qed

lemma int_of_size_t_small: "n \<le> INT_MAX \<Longrightarrow> int_of_size_t n = int n"
proof -
  assume "n \<le> INT_MAX"
  then have a: "n < 2 ^ 31" by (simp add: INT_MAX_def)
  then have b: "int n < 2 ^ 31" by (metis of_nat_less_iff of_nat_numeral of_nat_power)
  then have "int n < 2 ^ 32" by simp
  then have "int n mod 2 ^ 32 = int n" by simp
  then show ?thesis using b by (simp add: int_of_size_t_def)
qed

lemma size_t_of_int_nat: "n \<le> INT_MAX \<Longrightarrow> size_t_of_int (int n) = n"
proof -
  assume "n \<le> INT_MAX"
  then have a: "n < 2 ^ 31" by (simp add: INT_MAX_def)
  then have "int n < 2 ^ 31" by (metis of_nat_less_iff of_nat_numeral of_nat_power)
  then have "int n < 2 ^ 64" by simp
  then have "int n mod 2 ^ 64 = int n" by simp
  then show ?thesis by (simp add: size_t_of_int_def)
qed

lemma shift_right_stop:
  "\<not> size_t_of_int i > offset \<Longrightarrow> shift_right arr i offset = Some arr"
  by (subst shift_right.simps) simp

lemma shift_right_step:
  "size_t_of_int i > offset \<Longrightarrow> 0 < i \<Longrightarrow> i < int (length arr) \<Longrightarrow>
   shift_right arr i offset = shift_right (arr[nat i := arr ! nat (i - 1)]) (i - 1) offset"
  by (subst shift_right.simps) simp

lemma shift_right_spec:
  "n < length arr \<Longrightarrow> n \<le> INT_MAX \<Longrightarrow>
   \<exists>arr'. shift_right arr (int n) offset = Some arr' \<and> length arr' = length arr \<and>
     (\<forall>j < length arr. arr' ! j = (if offset < j \<and> j \<le> n then arr ! (j - 1) else arr ! j))"
proof (induction n arbitrary: arr)
  case 0
  have "size_t_of_int (int 0) = 0" by (simp add: size_t_of_int_def)
  then have "shift_right arr (int 0) offset = Some arr" by (intro shift_right_stop) simp
  then show ?case by simp
next
  case (Suc n)
  have sz: "size_t_of_int (int (Suc n)) = Suc n" using Suc.prems(2) by (rule size_t_of_int_nat)
  show ?case
  proof (cases "offset < Suc n")
    case False
    then have "shift_right arr (int (Suc n)) offset = Some arr"
      using sz by (intro shift_right_stop) simp
    then show ?thesis using False by auto
  next
    case True
    let ?arr1 = "arr[Suc n := arr ! n]"
    have "shift_right arr (int (Suc n)) offset
            = shift_right (arr[nat (int (Suc n)) := arr ! nat (int (Suc n) - 1)]) (int (Suc n) - 1) offset"
      using True sz Suc.prems(1) by (intro shift_right_step) simp_all
    moreover have "nat (int (Suc n)) = Suc n" "nat (int (Suc n) - 1) = n" "int (Suc n) - 1 = int n"
      by simp_all
    ultimately have step: "shift_right arr (int (Suc n)) offset = shift_right ?arr1 (int n) offset"
      by metis
    have "n < length ?arr1" "n \<le> INT_MAX" using Suc.prems by auto
    from Suc.IH[OF this] obtain arr' where
      r: "shift_right ?arr1 (int n) offset = Some arr'" and l: "length arr' = length ?arr1"
      and nth: "\<forall>j < length ?arr1. arr' ! j = (if offset < j \<and> j \<le> n then ?arr1 ! (j - 1) else ?arr1 ! j)"
      by blast
    have "\<forall>j < length arr. arr' ! j = (if offset < j \<and> j \<le> Suc n then arr ! (j - 1) else arr ! j)"
    proof (intro allI impI)
      fix j assume j: "j < length arr"
      with nth have e: "arr' ! j = (if offset < j \<and> j \<le> n then ?arr1 ! (j - 1) else ?arr1 ! j)" by simp
      show "arr' ! j = (if offset < j \<and> j \<le> Suc n then arr ! (j - 1) else arr ! j)"
        using e j Suc.prems(1) True by (auto simp: nth_list_update)
    qed
    with r l step show ?thesis by simp
  qed
qed

lemma insert_at_inconsistent:
  "\<not> containers_are_consistent bl \<Longrightarrow>
   insert_at book offset bl = Thrown InvalidInternalStateException bl"
  by (simp add: insert_at_def size_bl_def)

lemma insert_at_beyond:
  "containers_are_consistent bl \<Longrightarrow> offset > length (books_vector bl) \<Longrightarrow>
   insert_at book offset bl = Thrown InvalidOffsetException bl"
  by (simp add: insert_at_def size_bl_def)

lemma insert_at_duplicate:
  "containers_are_consistent bl \<Longrightarrow> offset \<le> length (books_vector bl) \<Longrightarrow>
   book \<in> set (books_vector bl) \<Longrightarrow> insert_at book offset bl = Returned bl"
  by (simp add: insert_at_def size_bl_consistent find_bl_consistent std_find_absent)

lemma insert_at_full:
  "containers_are_consistent bl \<Longrightarrow> offset \<le> length (books_vector bl) \<Longrightarrow>
   book \<notin> set (books_vector bl) \<Longrightarrow> books_array_size bl \<ge> length (books_array bl) \<Longrightarrow>
   insert_at book offset bl = Thrown CapacityExceededException bl"
  by (simp add: insert_at_def size_bl_consistent find_bl_consistent std_find_absent)

lemma take_shifted:
  assumes n: "n < length arr" and off: "offset \<le> n" and len: "length arr' = length arr"
    and nth: "\<forall>j < length arr. arr' ! j = (if offset < j \<and> j \<le> n then arr ! (j - 1) else arr ! j)"
  shows "take (Suc n) (arr'[offset := book])
           = take offset (take n arr) @ book # drop offset (take n arr)"
proof (rule nth_equalityI)
  show "length (take (Suc n) (arr'[offset := book]))
          = length (take offset (take n arr) @ book # drop offset (take n arr))"
    using n off len by simp
next
  fix j assume "j < length (take (Suc n) (arr'[offset := book]))"
  then have j: "j \<le> n" using n len by simp
  then have jl: "j < length arr" using n by simp
  consider "j < offset" | "j = offset" | "offset < j" by linarith
  then show "take (Suc n) (arr'[offset := book]) ! j
               = (take offset (take n arr) @ book # drop offset (take n arr)) ! j"
  proof cases
    case 1
    then show ?thesis using j jl n off len nth by (simp add: nth_append)
  next
    case 2
    then show ?thesis using j jl n off len by (simp add: nth_append)
  next
    case 3
    then obtain k where k: "j = Suc (offset + k)" using less_iff_Suc_add by auto
    have "arr' ! j = arr ! (j - 1)" using nth jl 3 j by simp
    then show ?thesis using 3 j jl n off len k by (simp add: nth_append)
  qed
qed

lemma insert_at_new:
  assumes c: "containers_are_consistent bl"
    and absent: "book \<notin> set (books_vector bl)"
    and off: "offset \<le> length (books_vector bl)"
    and room: "length (books_vector bl) < length (books_array bl)"
    and small: "length (books_vector bl) \<le> INT_MAX"
  shows "\<exists>bl'. insert_at book offset bl = Returned bl' \<and> containers_are_consistent bl'
           \<and> books_vector bl' = take offset (books_vector bl) @ book # drop offset (books_vector bl)
           \<and> length (books_array bl') = length (books_array bl)"
proof -
  let ?vec = "books_vector bl" and ?arr = "books_array bl"
  let ?n = "length ?vec"
  let ?new = "take offset ?vec @ book # drop offset ?vec"
  from c have sz: "books_array_size bl = ?n" and tk: "take ?n ?arr = ?vec"
    and dl: "books_dl_list bl = ?vec" and sl: "books_sl_list bl = ?vec"
    by (simp_all add: consistent_iff)
  from shift_right_spec[OF room small, of offset] obtain arr' where
    sh: "shift_right ?arr (int ?n) offset = Some arr'" and len: "length arr' = length ?arr"
    and nth: "\<forall>j < length ?arr. arr' ! j = (if offset < j \<and> j \<le> ?n then ?arr ! (j - 1) else ?arr ! j)"
    by blast
  define bl' where "bl' = bl\<lparr>books_array := arr'[offset := book],
                   books_array_size := books_array_size bl + 1,
                   books_vector := ?new, books_sl_list := ?new, books_dl_list := ?new\<rparr>"
  have "take (Suc ?n) (arr'[offset := book]) = take offset (take ?n ?arr) @ book # drop offset (take ?n ?arr)"
    using room off len nth by (rule take_shifted)
  then have tk': "take (Suc ?n) (arr'[offset := book]) = ?new" using tk by simp
  have c': "containers_are_consistent bl'"
    unfolding consistent_iff bl'_def using sz off room len tk' by simp
  have "insert_at book offset bl = (if \<not> containers_are_consistent bl'
         then Thrown InvalidInternalStateException bl' else Returned bl')"
    unfolding insert_at_def bl'_def
    using c absent off room sh sz dl sl
    by (simp add: size_bl_consistent find_bl_consistent std_find_absent int_of_size_t_small[OF small]
        vector_insert_def list_insert_eq forward_list_insert_after_eq)
  with c' have "insert_at book offset bl = Returned bl'" by simp
  moreover have "books_vector bl' = ?new" "length (books_array bl') = length ?arr"
    using len by (simp_all add: bl'_def)
  ultimately show ?thesis using c' by blast
qed

subsection \<open>The guards of \<^verbatim>\<open>insert\<close>\<close>

lemma shelf3_consistent: "containers_are_consistent shelf3"
  by (simp add: shelf3_def containers_are_consistent_def books_sl_list_size_def)


lemma insert_pos_eq:
  "containers_are_consistent bl \<Longrightarrow>
   insert_pos book position bl
     = insert_at book (case position of TOP \<Rightarrow> 0 | BOTTOM \<Rightarrow> length (books_vector bl)) bl"
  by (cases position) (simp_all add: insert_pos_def size_bl_consistent)

lemma insert_pos_inconsistent:
  "\<not> containers_are_consistent bl \<Longrightarrow>
   insert_pos book position bl = Thrown InvalidInternalStateException bl"
  by (cases position) (simp_all add: insert_pos_def size_bl_inconsistent insert_at_inconsistent)

text \<open>
  Claim C2. When the array is full and the book is not in the list, \<^verbatim>\<open>insert\<close>
  with an offset of at most \<^verbatim>\<open>size()\<close> throws \<^verbatim>\<open>CapacityExceededException\<close>, and
  the list at the \<^verbatim>\<open>throw\<close> is the list before the call, in all four containers
  and in every slot of the array. The same holds for the overload that takes a
  \<^verbatim>\<open>Position\<close>.
\<close>

theorem insert_into_full_array:
  assumes "containers_are_consistent bl"
    and "books_array_size bl = length (books_array bl)"
    and "book \<notin> set (books_vector bl)"
    and "size_bl bl = Value n"
    and "offset \<le> n"
  shows "insert_at book offset bl = Thrown CapacityExceededException bl
         \<and> insert_pos book position bl = Thrown CapacityExceededException bl"
proof -
  from assms(1,4) have n: "n = length (books_vector bl)" by (simp add: size_bl_consistent)
  have at: "\<And>k. k \<le> length (books_vector bl) \<Longrightarrow>
              insert_at book k bl = Thrown CapacityExceededException bl"
    using assms(1,2,3) by (intro insert_at_full) simp_all
  have "insert_pos book position bl = Thrown CapacityExceededException bl"
    using assms(1) at by (cases position) (simp_all add: insert_pos_eq)
  with at[of offset] assms(5) n show ?thesis by simp
qed

text \<open>The list of three books at capacity 3 and a fourth book, inserted at the bottom.\<close>

theorem insert_into_full_array_witness:
  "containers_are_consistent shelf3 \<and> books_array_size shelf3 = length (books_array shelf3)
   \<and> 14 \<notin> set (books_vector shelf3) \<and> size_bl shelf3 = Value 3
   \<and> insert_at 14 3 shelf3 = Thrown CapacityExceededException shelf3
   \<and> insert_pos 14 BOTTOM shelf3 = Thrown CapacityExceededException shelf3"
proof -
  have c: "containers_are_consistent shelf3"
    by (simp add: shelf3_def containers_are_consistent_def books_sl_list_size_def)
  have f: "books_array_size shelf3 = length (books_array shelf3)" by (simp add: shelf3_def)
  have a: "14 \<notin> set (books_vector shelf3)" by (simp add: shelf3_def)
  have s: "size_bl shelf3 = Value 3" using c by (simp add: size_bl_def) (simp add: shelf3_def)
  have o: "(3::nat) \<le> 3" by simp
  from insert_into_full_array[OF c f a s o, of BOTTOM] c f a s show ?thesis by simp
qed

text \<open>
  Claim C3. When \<^verbatim>\<open>size()\<close> returns \<open>n\<close>, \<^verbatim>\<open>insert\<close> with an offset greater than \<open>n\<close>
  throws \<^verbatim>\<open>InvalidOffsetException\<close> and the list at the \<^verbatim>\<open>throw\<close> is the list
  before the call; with an offset of at most \<open>n\<close> it does not throw
  \<^verbatim>\<open>InvalidOffsetException\<close>, whatever else it does.
\<close>

theorem insert_beyond_size:
  assumes "size_bl bl = Value n"
  shows "(offset > n \<longrightarrow> insert_at book offset bl = Thrown InvalidOffsetException bl)
         \<and> (offset \<le> n \<longrightarrow> (\<forall>bl'. insert_at book offset bl \<noteq> Thrown InvalidOffsetException bl'))"
proof (intro conjI impI allI)
  assume "offset > n"
  with assms show "insert_at book offset bl = Thrown InvalidOffsetException bl"
    by (simp add: insert_at_def)
next
  fix bl' assume le: "offset \<le> n"
  from assms have c: "containers_are_consistent bl" and n: "n = length (books_vector bl)"
    by (auto simp: size_bl_def split: if_splits)
  show "insert_at book offset bl \<noteq> Thrown InvalidOffsetException bl'"
    using c le n unfolding insert_at_def
    by (simp add: size_bl_consistent find_bl_consistent Let_def split: option.splits)
qed

text \<open>Three books: offset 4 is refused, offset 3 is not.\<close>

theorem insert_beyond_size_witness:
  "size_bl shelf5 = Value 3 \<and> insert_at 14 4 shelf5 = Thrown InvalidOffsetException shelf5
   \<and> (\<forall>bl'. insert_at 14 3 shelf5 \<noteq> Thrown InvalidOffsetException bl')"
proof -
  have c: "containers_are_consistent shelf5"
    by (simp add: shelf5_def containers_are_consistent_def books_sl_list_size_def)
  have s: "size_bl shelf5 = Value 3" using c by (simp add: size_bl_def) (simp add: shelf5_def)
  from insert_beyond_size[OF s, of 4 14] insert_beyond_size[OF s, of 3 14] s show ?thesis by simp
qed

text \<open>
  Claim C9. For a book that \<^verbatim>\<open>find\<close> locates in the list (its result differs from
  \<^verbatim>\<open>size()\<close>), \<^verbatim>\<open>insert\<close> with an offset greater than \<^verbatim>\<open>size()\<close> throws
  \<^verbatim>\<open>InvalidOffsetException\<close>; only with an offset of at most \<^verbatim>\<open>size()\<close> does it
  return the list unchanged.
\<close>

theorem offset_checked_before_duplicate:
  assumes "size_bl bl = Value n" and "find_bl bl book = Value pos" and "pos \<noteq> n"
  shows "(offset > n \<longrightarrow> insert_at book offset bl = Thrown InvalidOffsetException bl)
         \<and> (offset \<le> n \<longrightarrow> insert_at book offset bl = Returned bl)"
  using assms by (simp add: insert_at_def)

text \<open>The book 12 is at position 1 of three books.\<close>

theorem offset_checked_before_duplicate_witness:
  "size_bl shelf5 = Value 3 \<and> find_bl shelf5 12 = Value 1
   \<and> insert_at 12 4 shelf5 = Thrown InvalidOffsetException shelf5
   \<and> insert_at 12 3 shelf5 = Returned shelf5"
proof -
  have c: "containers_are_consistent shelf5"
    by (simp add: shelf5_def containers_are_consistent_def books_sl_list_size_def)
  have s: "size_bl shelf5 = Value 3" using c by (simp add: size_bl_def) (simp add: shelf5_def)
  have f: "find_bl shelf5 12 = Value 1" using c by (simp add: find_bl_def) (simp add: shelf5_def)
  have d: "(1::nat) \<noteq> 3" by simp
  from offset_checked_before_duplicate[OF s f d, of 4] offset_checked_before_duplicate[OF s f d, of 3] s f
  show ?thesis by simp
qed

text \<open>
  Claim C10. For a book that \<^verbatim>\<open>find\<close> locates in the list and an offset of at
  most \<^verbatim>\<open>size()\<close>, \<^verbatim>\<open>insert\<close> returns the list unchanged even when the array is
  full: no \<^verbatim>\<open>CapacityExceededException\<close> is thrown.
\<close>

theorem duplicate_checked_before_capacity:
  assumes "size_bl bl = Value n" and "find_bl bl book = Value pos" and "pos \<noteq> n"
    and "offset \<le> n" and "books_array_size bl \<ge> length (books_array bl)"
  shows "insert_at book offset bl = Returned bl
         \<and> insert_at book offset bl \<noteq> Thrown CapacityExceededException bl"
  using assms by (simp add: insert_at_def)

text \<open>The full list of three books and the book 12 it already holds.\<close>

theorem duplicate_checked_before_capacity_witness:
  "size_bl shelf3 = Value 3 \<and> find_bl shelf3 12 = Value 1
   \<and> books_array_size shelf3 \<ge> length (books_array shelf3)
   \<and> insert_at 12 0 shelf3 = Returned shelf3
   \<and> insert_at 12 0 shelf3 \<noteq> Thrown CapacityExceededException shelf3"
proof -
  have c: "containers_are_consistent shelf3"
    by (simp add: shelf3_def containers_are_consistent_def books_sl_list_size_def)
  have s: "size_bl shelf3 = Value 3" using c by (simp add: size_bl_def) (simp add: shelf3_def)
  have f: "find_bl shelf3 12 = Value 1" using c by (simp add: find_bl_def) (simp add: shelf3_def)
  have d: "(1::nat) \<noteq> 3" by simp
  have o: "(0::nat) \<le> 3" by simp
  have a: "books_array_size shelf3 \<ge> length (books_array shelf3)" by (simp add: shelf3_def)
  from duplicate_checked_before_capacity[OF s f d o a] s f a show ?thesis by simp
qed

subsection \<open>Sequences of insertions\<close>

lemma shift_right_length:
  "shift_right arr i offset = Some arr' \<Longrightarrow> length arr' = length arr"
proof (induction arr i offset rule: shift_right.induct)
  case (1 arr i offset)
  show ?case
  proof (cases "size_t_of_int i > offset")
    case False
    then have "shift_right arr i offset = Some arr" by (rule shift_right_stop)
    with "1.prems" show ?thesis by simp
  next
    case True
    show ?thesis
    proof (cases "0 < i \<and> i < int (length arr)")
      case False
      with True have "shift_right arr i offset = None" by (subst shift_right.simps) auto
      with "1.prems" show ?thesis by simp
    next
      case inside: True
      with True have "shift_right arr i offset
           = shift_right (arr[nat i := arr ! nat (i - 1)]) (i - 1) offset"
        by (intro shift_right_step) simp_all
      with "1.prems" have "shift_right (arr[nat i := arr ! nat (i - 1)]) (i - 1) offset = Some arr'"
        by simp
      from "1.IH"[OF True inside this] show ?thesis by simp
    qed
  qed
qed

lemma insert_at_left_in:
  assumes "left_in (insert_at book offset bl) = Some bl'"
  shows "bl' = bl \<or>
         (containers_are_consistent bl \<and> book \<notin> set (books_vector bl)
          \<and> offset \<le> length (books_vector bl)
          \<and> books_vector bl' = take offset (books_vector bl) @ book # drop offset (books_vector bl)
          \<and> books_dl_list bl' = take offset (books_vector bl) @ book # drop offset (books_vector bl)
          \<and> books_sl_list bl' = take offset (books_vector bl) @ book # drop offset (books_vector bl)
          \<and> length (books_array bl') = length (books_array bl))"
proof (cases "containers_are_consistent bl")
  case False
  then show ?thesis using assms by (simp add: insert_at_inconsistent)
next
  case c: True
  then have dl: "books_dl_list bl = books_vector bl" and sl: "books_sl_list bl = books_vector bl"
    by (simp_all add: consistent_iff)
  show ?thesis
  proof (cases "offset \<le> length (books_vector bl)")
    case False
    then show ?thesis using assms c by (simp add: insert_at_beyond)
  next
    case off: True
    show ?thesis
    proof (cases "book \<in> set (books_vector bl)")
      case True
      then show ?thesis using assms c off by (simp add: insert_at_duplicate)
    next
      case absent: False
      show ?thesis
      proof (cases "books_array_size bl \<ge> length (books_array bl)")
        case True
        then show ?thesis using assms c off absent by (simp add: insert_at_full)
      next
        case room: False
        show ?thesis
        proof (cases "shift_right (books_array bl) (int_of_size_t (books_array_size bl)) offset")
          case None
          then have "insert_at book offset bl = Undefined"
            using c off absent room
            by (simp add: insert_at_def size_bl_consistent find_bl_consistent std_find_absent)
          with assms show ?thesis by simp
        next
          case (Some arr)
          then have len: "length arr = length (books_array bl)" by (rule shift_right_length)
          let ?new = "take offset (books_vector bl) @ book # drop offset (books_vector bl)"
          define bl2 where "bl2 = bl\<lparr>books_array := arr[offset := book],
                   books_array_size := books_array_size bl + 1,
                   books_vector := ?new, books_sl_list := ?new, books_dl_list := ?new\<rparr>"
          have "insert_at book offset bl = (if \<not> containers_are_consistent bl2
                  then Thrown InvalidInternalStateException bl2 else Returned bl2)"
            unfolding insert_at_def bl2_def
            using c off absent room Some dl sl
            by (simp add: size_bl_consistent find_bl_consistent std_find_absent
                vector_insert_def list_insert_eq forward_list_insert_after_eq)
          with assms have "bl' = bl2" by (simp split: if_splits)
          then show ?thesis using c off absent len by (simp add: bl2_def)
        qed
      qed
    qed
  qed
qed

lemma insert_pos_left_in:
  assumes "left_in (insert_pos book position bl) = Some bl'"
  shows "\<exists>offset. left_in (insert_at book offset bl) = Some bl'"
proof (cases "containers_are_consistent bl")
  case True
  then show ?thesis using assms by (auto simp: insert_pos_eq)
next
  case False
  then show ?thesis using assms by (auto simp: insert_pos_inconsistent insert_at_inconsistent)
qed

lemma distinct_insert_middle:
  assumes d: "distinct xs" and x: "x \<notin> set xs"
  shows "distinct (take k xs @ x # drop k xs)"
proof -
  have "distinct (take k xs @ drop k xs)" using d by simp
  then have parts: "distinct (take k xs)" "distinct (drop k xs)"
    "set (take k xs) \<inter> set (drop k xs) = {}"
    by (simp_all only: distinct_append)
  have "x \<notin> set (take k xs)" "x \<notin> set (drop k xs)"
    using x by (auto dest: in_set_takeD in_set_dropD)
  with parts show ?thesis by (simp only: distinct_append distinct.simps set_simps) blast
qed

lemma insert_at_keeps_distinct:
  assumes step: "left_in (insert_at book offset bl) = Some bl'"
    and d: "distinct (books_vector bl) \<and> distinct (books_dl_list bl) \<and> distinct (books_sl_list bl)"
  shows "distinct (books_vector bl') \<and> distinct (books_dl_list bl') \<and> distinct (books_sl_list bl')"
proof -
  from insert_at_left_in[OF step] consider "bl' = bl"
    | "book \<notin> set (books_vector bl)"
      "books_vector bl' = take offset (books_vector bl) @ book # drop offset (books_vector bl)"
      "books_dl_list bl' = take offset (books_vector bl) @ book # drop offset (books_vector bl)"
      "books_sl_list bl' = take offset (books_vector bl) @ book # drop offset (books_vector bl)"
    by blast
  then show ?thesis
  proof cases
    case 1
    with d show ?thesis by simp
  next
    case 2
    from d 2(1) have "distinct (take offset (books_vector bl) @ book # drop offset (books_vector bl))"
      by (intro distinct_insert_middle) simp_all
    with 2 show ?thesis by simp
  qed
qed

lemma after_inserts_keeps_distinct:
  assumes "after_inserts bl bl'"
  shows "distinct (books_vector bl) \<and> distinct (books_dl_list bl) \<and> distinct (books_sl_list bl)
    \<Longrightarrow> distinct (books_vector bl') \<and> distinct (books_dl_list bl') \<and> distinct (books_sl_list bl')"
  using assms
proof (induction rule: after_inserts.induct)
  case (no_insert bl)
  then show ?case .
next
  case (offset_insert bl bl1 book offset bl2)
  show ?case
    by (rule insert_at_keeps_distinct[OF offset_insert.hyps(2) offset_insert.IH[OF offset_insert.prems]])
next
  case (position_insert bl bl1 book position bl2)
  from insert_pos_left_in[OF position_insert.hyps(2)]
  obtain offset where step: "left_in (insert_at book offset bl1) = Some bl2" ..
  show ?case
    by (rule insert_at_keeps_distinct[OF step position_insert.IH[OF position_insert.prems]])
qed

text \<open>
  Claim C4. \<^verbatim>\<open>insert\<close> of a book the list already holds, with an offset of at most
  \<^verbatim>\<open>size()\<close>, returns the list unchanged. Consequently a sequence of calls of
  \<^verbatim>\<open>insert\<close> that starts from a consistent list without duplicates leaves a list
  without duplicates: no book occurs twice in the vector or in either linked
  list, nor among the elements of the array of a consistent list.
\<close>
theorem duplicate_insert_discarded:
  "(containers_are_consistent bl \<and> book \<in> set (books_vector bl)
      \<and> offset \<le> length (books_vector bl)
    \<longrightarrow> insert_at book offset bl = Returned bl)
   \<and> (containers_are_consistent bl \<and> distinct (books_vector bl) \<and> after_inserts bl bl'
    \<longrightarrow> distinct (books_vector bl') \<and> distinct (books_dl_list bl')
        \<and> distinct (books_sl_list bl')
        \<and> (containers_are_consistent bl'
             \<longrightarrow> distinct (take (books_array_size bl') (books_array bl'))))"
proof (intro conjI impI)
  assume "containers_are_consistent bl \<and> book \<in> set (books_vector bl)
      \<and> offset \<le> length (books_vector bl)"
  then show "insert_at book offset bl = Returned bl" by (simp add: insert_at_duplicate)
next
  assume a: "containers_are_consistent bl \<and> distinct (books_vector bl) \<and> after_inserts bl bl'"
  then have "distinct (books_vector bl) \<and> distinct (books_dl_list bl) \<and> distinct (books_sl_list bl)"
    by (simp add: consistent_iff)
  with a have d: "distinct (books_vector bl') \<and> distinct (books_dl_list bl') \<and> distinct (books_sl_list bl')"
    using after_inserts_keeps_distinct by blast
  then show "distinct (books_vector bl')" "distinct (books_dl_list bl')" "distinct (books_sl_list bl')"
    by simp_all
  assume "containers_are_consistent bl'"
  then have "take (books_array_size bl') (books_array bl') = books_vector bl'"
    by (simp add: consistent_iff)
  with d show "distinct (take (books_array_size bl') (books_array bl'))" by simp
qed

text \<open>The book 12 is discarded; the book 14, inserted at the bottom, keeps the list free of duplicates.\<close>
theorem duplicate_insert_discarded_witness:
  "containers_are_consistent shelf5 \<and> 12 \<in> set (books_vector shelf5)
   \<and> insert_at 12 0 shelf5 = Returned shelf5
   \<and> distinct (books_vector shelf5) \<and> after_inserts shelf5 shelf5_14
   \<and> distinct (books_vector shelf5_14) \<and> containers_are_consistent shelf5_14
   \<and> distinct (take (books_array_size shelf5_14) (books_array shelf5_14))"
proof -
  have c: "containers_are_consistent shelf5"
    by (simp add: shelf5_def containers_are_consistent_def books_sl_list_size_def)
  have c': "containers_are_consistent shelf5_14"
    by (simp add: shelf5_14_def containers_are_consistent_def books_sl_list_size_def)
  have m: "12 \<in> set (books_vector shelf5)" "(0::nat) \<le> length (books_vector shelf5)"
    and d: "distinct (books_vector shelf5)"
    by (simp_all add: shelf5_def)
  have "insert_at 14 3 shelf5 = Returned shelf5_14" by code_simp
  then have "left_in (insert_at 14 3 shelf5) = Some shelf5_14" by simp
  with no_insert[of shelf5] have a: "after_inserts shelf5 shelf5_14" by (rule offset_insert)
  from duplicate_insert_discarded[of shelf5 12 0 shelf5_14] c c' m d a show ?thesis by simp
qed

subsection \<open>Removal at an offset\<close>

lemma std_move_stop:
  "\<not> first < length arr \<Longrightarrow> std_move moved arr first d_first = Some arr"
  by (subst std_move.simps) simp

lemma std_move_step:
  "first < length arr \<Longrightarrow> d_first < length arr \<Longrightarrow>
   std_move moved arr first d_first
     = std_move moved (arr[d_first := arr ! first, first := moved (arr ! d_first) (arr ! first)])
         (first + 1) (d_first + 1)"
  by (subst std_move.simps) simp

lemma std_move_spec:
  "Suc d \<le> length arr \<Longrightarrow> k = length arr - Suc d \<Longrightarrow>
   \<exists>arr'. std_move moved arr (Suc d) d = Some arr' \<and> length arr' = length arr \<and>
     (\<forall>j < d. arr' ! j = arr ! j) \<and>
     (\<forall>j. d \<le> j \<and> Suc j < length arr \<longrightarrow> arr' ! j = arr ! Suc j)"
proof (induction k arbitrary: arr d)
  case 0
  then have "\<not> Suc d < length arr" by simp
  then have "std_move moved arr (Suc d) d = Some arr" by (rule std_move_stop)
  then show ?case using 0 by auto
next
  case (Suc k)
  then have lt: "Suc d < length arr" by simp
  let ?arr1 = "arr[d := arr ! Suc d, Suc d := moved (arr ! d) (arr ! Suc d)]"
  have "std_move moved arr (Suc d) d = std_move moved ?arr1 (Suc d + 1) (d + 1)"
    using lt by (intro std_move_step) simp_all
  then have step: "std_move moved arr (Suc d) d = std_move moved ?arr1 (Suc (Suc d)) (Suc d)"
    by simp
  have "Suc (Suc d) \<le> length ?arr1" "k = length ?arr1 - Suc (Suc d)" using lt Suc.prems by simp_all
  from Suc.IH[OF this] obtain arr' where
    r: "std_move moved ?arr1 (Suc (Suc d)) (Suc d) = Some arr'" and l: "length arr' = length ?arr1"
    and low: "\<forall>j < Suc d. arr' ! j = ?arr1 ! j"
    and high: "\<forall>j. Suc d \<le> j \<and> Suc j < length ?arr1 \<longrightarrow> arr' ! j = ?arr1 ! Suc j"
    by blast
  have "\<forall>j < d. arr' ! j = arr ! j"
    using low lt by (auto simp: nth_list_update)
  moreover have "\<forall>j. d \<le> j \<and> Suc j < length arr \<longrightarrow> arr' ! j = arr ! Suc j"
  proof (intro allI impI)
    fix j assume j: "d \<le> j \<and> Suc j < length arr"
    show "arr' ! j = arr ! Suc j"
    proof (cases "j = d")
      case True
      then have "arr' ! j = ?arr1 ! d" using low by simp
      then show ?thesis using True lt by (simp add: nth_list_update)
    next
      case False
      with j have "Suc d \<le> j \<and> Suc j < length ?arr1" by simp
      with high have "arr' ! j = ?arr1 ! Suc j" by blast
      then show ?thesis using False j by (simp add: nth_list_update)
    qed
  qed
  ultimately show ?case using r l step by simp
qed

lemma take_closed_up:
  assumes d: "d < n" and n: "n \<le> length arr" and len: "length arr' = length arr"
    and low: "\<forall>j < d. arr' ! j = arr ! j"
    and high: "\<forall>j. d \<le> j \<and> Suc j < length arr \<longrightarrow> arr' ! j = arr ! Suc j"
  shows "take (n - 1) arr' = take d (take n arr) @ drop (Suc d) (take n arr)"
proof (rule nth_equalityI)
  show "length (take (n - 1) arr') = length (take d (take n arr) @ drop (Suc d) (take n arr))"
    using d n len by simp
next
  fix j assume "j < length (take (n - 1) arr')"
  then have j: "j < n - 1" using n len by simp
  show "take (n - 1) arr' ! j = (take d (take n arr) @ drop (Suc d) (take n arr)) ! j"
  proof (cases "j < d")
    case True
    then show ?thesis using j d n low by (simp add: nth_append)
  next
    case False
    then have "d \<le> j \<and> Suc j < length arr" using j n by simp
    with high have "arr' ! j = arr ! Suc j" by blast
    then show ?thesis using False j d n by (simp add: nth_append min_def)
  qed
qed

lemma list_erase_eq:
  "offset < length dl \<Longrightarrow> list_erase offset dl = Some (take offset dl @ drop (Suc offset) dl)"
proof (induction offset dl rule: list_erase.induct)
  case (1 k)
  then show ?case by simp
next
  case (2 d dl)
  show ?case by simp
next
  case (3 k d dl)
  then show ?case by simp
qed

lemma erase_after_node_eq:
  "k < length rest \<Longrightarrow>
   erase_after_node k node rest = Some (node # take k rest @ drop (Suc k) rest)"
proof (induction k node rest rule: erase_after_node.induct)
  case (1 k node)
  then show ?case by simp
next
  case (2 node n rest)
  show ?case by simp
next
  case (3 k node n rest)
  then show ?case by simp
qed

lemma forward_list_erase_after_eq:
  "offset < length sl \<Longrightarrow>
   forward_list_erase_after offset sl = Some (take offset sl @ drop (Suc offset) sl)"
proof (cases sl)
  case Nil
  assume "offset < length sl"
  with Nil show ?thesis by simp
next
  case (Cons n rest)
  assume lt: "offset < length sl"
  show ?thesis
  proof (cases offset)
    case 0
    with Cons show ?thesis by simp
  next
    case (Suc k)
    with lt Cons have "k < length rest" by simp
    then show ?thesis using Suc Cons by (simp add: erase_after_node_eq)
  qed
qed

lemma remove_at_outside:
  "containers_are_consistent bl \<Longrightarrow> offset \<ge> length (books_vector bl) \<Longrightarrow>
   remove_at moved offset bl = Returned bl"
  by (simp add: remove_at_def size_bl_consistent)

lemma remove_at_inconsistent:
  "\<not> containers_are_consistent bl \<Longrightarrow>
   remove_at moved offset bl = Thrown InvalidInternalStateException bl"
  by (simp add: remove_at_def size_bl_inconsistent)

lemma remove_at_inside:
  assumes c: "containers_are_consistent bl" and off: "offset < length (books_vector bl)"
  shows "\<exists>bl'. remove_at moved offset bl = Returned bl' \<and> containers_are_consistent bl'
           \<and> books_vector bl' = take offset (books_vector bl) @ drop (Suc offset) (books_vector bl)
           \<and> length (books_array bl') = length (books_array bl)"
proof -
  let ?vec = "books_vector bl" and ?arr = "books_array bl"
  let ?n = "length ?vec"
  let ?new = "take offset ?vec @ drop (Suc offset) ?vec"
  from c have sz: "books_array_size bl = ?n" and cap: "?n \<le> length ?arr"
    and tk: "take ?n ?arr = ?vec"
    and dl: "books_dl_list bl = ?vec" and sl: "books_sl_list bl = ?vec"
    by (simp_all add: consistent_iff)
  have "Suc offset \<le> length ?arr" using off cap by simp
  from std_move_spec[OF this refl, of moved] obtain arr' where
    mv: "std_move moved ?arr (Suc offset) offset = Some arr'" and len: "length arr' = length ?arr"
    and low: "\<forall>j < offset. arr' ! j = ?arr ! j"
    and high: "\<forall>j. offset \<le> j \<and> Suc j < length ?arr \<longrightarrow> arr' ! j = ?arr ! Suc j"
    by blast
  define bl' where "bl' = bl\<lparr>books_array := arr',
                   books_array_size := books_array_size bl - 1,
                   books_vector := ?new, books_sl_list := ?new, books_dl_list := ?new\<rparr>"
  have "take (?n - 1) arr' = take offset (take ?n ?arr) @ drop (Suc offset) (take ?n ?arr)"
    using off cap len low high by (rule take_closed_up)
  then have tk': "take (?n - 1) arr' = ?new" using tk by simp
  have ln: "length ?new = ?n - 1" using off by simp
  have c': "containers_are_consistent bl'"
    unfolding consistent_iff bl'_def using sz off cap len tk' ln by simp
  have "remove_at moved offset bl = (if \<not> containers_are_consistent bl'
         then Thrown InvalidInternalStateException bl' else Returned bl')"
    unfolding remove_at_def bl'_def
    using c off cap mv sz dl sl
    by (simp add: size_bl_consistent vector_erase_def list_erase_eq forward_list_erase_after_eq)
  with c' have "remove_at moved offset bl = Returned bl'" by simp
  moreover have "books_vector bl' = ?new" "length (books_array bl') = length ?arr"
    using len by (simp_all add: bl'_def)
  ultimately show ?thesis using c' by blast
qed

text \<open>
  Claim C8. When \<^verbatim>\<open>size()\<close> returns \<open>n\<close>, \<^verbatim>\<open>remove\<close> with an offset of at least \<open>n\<close>
  returns the list unchanged and throws nothing; with an offset below \<open>n\<close> it
  returns a list in which the vector, both linked lists and the elements of the
  array have lost exactly the element at that offset, the others keeping their
  order.
\<close>
theorem remove_at_offset:
  assumes "size_bl bl = Value n"
  shows "(offset \<ge> n \<longrightarrow> remove_at moved offset bl = Returned bl)
    \<and> (offset < n \<longrightarrow>
         (\<exists>bl'. remove_at moved offset bl = Returned bl'
            \<and> books_vector bl'
                 = take offset (books_vector bl) @ drop (Suc offset) (books_vector bl)
            \<and> books_dl_list bl'
                 = take offset (books_dl_list bl) @ drop (Suc offset) (books_dl_list bl)
            \<and> books_sl_list bl'
                 = take offset (books_sl_list bl) @ drop (Suc offset) (books_sl_list bl)
            \<and> books_array_size bl' = books_array_size bl - 1
            \<and> take (books_array_size bl') (books_array bl')
                 = take offset (take (books_array_size bl) (books_array bl))
                   @ drop (Suc offset) (take (books_array_size bl) (books_array bl))))"
proof -
  from assms have c: "containers_are_consistent bl" and n: "n = length (books_vector bl)"
    by (auto simp: size_bl_def split: if_splits)
  from c have eq: "books_array_size bl = length (books_vector bl)"
    "take (length (books_vector bl)) (books_array bl) = books_vector bl"
    "books_dl_list bl = books_vector bl" "books_sl_list bl = books_vector bl"
    by (simp_all add: consistent_iff)
  show ?thesis
  proof (intro conjI impI)
    assume "offset \<ge> n"
    with c n show "remove_at moved offset bl = Returned bl" by (simp add: remove_at_outside)
  next
    assume "offset < n"
    with n have off: "offset < length (books_vector bl)" by simp
    from remove_at_inside[OF c off, of moved] obtain bl' where
      r: "remove_at moved offset bl = Returned bl'" and c': "containers_are_consistent bl'"
      and v: "books_vector bl'
                = take offset (books_vector bl) @ drop (Suc offset) (books_vector bl)"
      by blast
    from c' have eq': "books_array_size bl' = length (books_vector bl')"
      "take (length (books_vector bl')) (books_array bl') = books_vector bl'"
      "books_dl_list bl' = books_vector bl'" "books_sl_list bl' = books_vector bl'"
      by (simp_all add: consistent_iff)
    have "books_array_size bl' = books_array_size bl - 1" using eq' eq v off by simp
    with r v eq eq' show "\<exists>bl'. remove_at moved offset bl = Returned bl'
            \<and> books_vector bl'
                 = take offset (books_vector bl) @ drop (Suc offset) (books_vector bl)
            \<and> books_dl_list bl'
                 = take offset (books_dl_list bl) @ drop (Suc offset) (books_dl_list bl)
            \<and> books_sl_list bl'
                 = take offset (books_sl_list bl) @ drop (Suc offset) (books_sl_list bl)
            \<and> books_array_size bl' = books_array_size bl - 1
            \<and> take (books_array_size bl') (books_array bl')
                 = take offset (take (books_array_size bl) (books_array bl))
                   @ drop (Suc offset) (take (books_array_size bl) (books_array bl))"
      by (intro exI[of _ bl']) simp
  qed
qed

text \<open>Three books: offset 5 changes nothing, offset 1 removes the book 12.\<close>
theorem remove_at_offset_witness:
  "size_bl shelf5 = Value 3
   \<and> remove_at (\<lambda>dst src. 0) 5 shelf5 = Returned shelf5
   \<and> (\<exists>bl'. remove_at (\<lambda>dst src. 0) 1 shelf5 = Returned bl'
         \<and> books_vector bl' = [11, 13] \<and> books_dl_list bl' = [11, 13]
         \<and> books_sl_list bl' = [11, 13] \<and> books_array_size bl' = 2
         \<and> take (books_array_size bl') (books_array bl') = [11, 13])"
proof -
  have c: "containers_are_consistent shelf5"
    by (simp add: shelf5_def containers_are_consistent_def books_sl_list_size_def)
  have s: "size_bl shelf5 = Value 3" using c by (simp add: size_bl_def) (simp add: shelf5_def)
  from remove_at_offset[OF s, of 5 "\<lambda>dst src. 0"] remove_at_offset[OF s, of 1 "\<lambda>dst src. 0"] s
  show ?thesis by (simp add: shelf5_def)
qed

subsection \<open>Comparison\<close>

lemma compare_walk_value:
  "length a = length b \<Longrightarrow>
   \<exists>c. compare_walk a b = Value c \<and> (c = - 1 \<or> c = 0 \<or> c = 1) \<and> (c = 0 \<longleftrightarrow> a = b)"
proof (induction a b rule: list_induct2)
  case Nil
  show ?case by simp
next
  case (Cons x xs y ys)
  then show ?case by auto
qed

lemma compare_walk_first_difference:
  "length a = length b \<Longrightarrow> i < length a \<Longrightarrow> \<forall>j < i. a ! j = b ! j \<Longrightarrow> a ! i \<noteq> b ! i \<Longrightarrow>
   compare_walk a b = Value (if a ! i < b ! i then - 1 else 1)"
proof (induction a b arbitrary: i rule: list_induct2)
  case Nil
  then show ?case by simp
next
  case (Cons x xs y ys)
  show ?case
  proof (cases i)
    case 0
    with Cons.prems show ?thesis by auto
  next
    case (Suc k)
    with Cons.prems have xy: "x = y" by auto
    have "k < length xs" "\<forall>j < k. xs ! j = ys ! j" "xs ! k \<noteq> ys ! k"
      using Cons.prems Suc by auto
    from Cons.IH[OF this] show ?thesis using xy Suc by simp
  qed
qed

lemma compare_walk_flip:
  "length a = length b \<Longrightarrow> compare_walk a b = Value c \<Longrightarrow> compare_walk b a = Value (- c)"
proof (induction a b rule: list_induct2)
  case Nil
  then show ?case by simp
next
  case (Cons x xs y ys)
  then show ?case by (auto split: if_splits)
qed

lemma compare_walk_trans:
  "length a = length b \<Longrightarrow> length b = length d \<Longrightarrow>
   compare_walk a b = Value x \<Longrightarrow> compare_walk b d = Value y \<Longrightarrow> x \<le> 0 \<Longrightarrow> y \<le> 0 \<Longrightarrow>
   \<exists>z. compare_walk a d = Value z \<and> z \<le> 0"
proof (induction a b d rule: list_induct3)
  case Nil
  show ?case by simp
next
  case (Cons p ps q qs r rs)
  from Cons.prems have pq: "p \<le> q" and qr: "q \<le> r"
    by (auto split: if_splits)
  show ?case
  proof (cases "p < r")
    case True
    then show ?thesis by simp
  next
    case False
    with pq qr have e: "p = q" "q = r" by auto
    with Cons.prems have "compare_walk ps qs = Value x" "compare_walk qs rs = Value y" by auto
    from Cons.IH[OF this Cons.prems(3,4)] show ?thesis using e by simp
  qed
qed

lemma compare_bl_consistent:
  "containers_are_consistent this \<Longrightarrow> containers_are_consistent other \<Longrightarrow>
   compare_bl this other =
     (if length (books_vector this) < length (books_vector other) then Value (- 1)
      else if length (books_vector this) > length (books_vector other) then Value 1
      else compare_walk (books_vector this) (books_vector other))"
  by (simp add: compare_bl_def size_bl_consistent)

lemma compare_bl_cases:
  assumes "containers_are_consistent this" and "containers_are_consistent other"
  obtains (shorter) "length (books_vector this) < length (books_vector other)"
      "compare_bl this other = Value (- 1)"
  | (longer) "length (books_vector this) > length (books_vector other)"
      "compare_bl this other = Value 1"
  | (same) c where "length (books_vector this) = length (books_vector other)"
      "compare_bl this other = Value c" "compare_walk (books_vector this) (books_vector other) = Value c"
      "c = - 1 \<or> c = 0 \<or> c = 1" "c = 0 \<longleftrightarrow> books_vector this = books_vector other"
proof -
  consider "length (books_vector this) < length (books_vector other)"
    | "length (books_vector this) > length (books_vector other)"
    | "length (books_vector this) = length (books_vector other)" by linarith
  then show thesis
  proof cases
    case 1
    then show ?thesis using assms shorter by (simp add: compare_bl_consistent)
  next
    case 2
    then show ?thesis using assms longer by (simp add: compare_bl_consistent)
  next
    case 3
    from compare_walk_value[OF 3] obtain c where
      "compare_walk (books_vector this) (books_vector other) = Value c"
      "c = - 1 \<or> c = 0 \<or> c = 1" "c = 0 \<longleftrightarrow> books_vector this = books_vector other" by blast
    then show ?thesis using 3 assms same by (simp add: compare_bl_consistent)
  qed
qed

lemma compare_bl_zero:
  assumes "containers_are_consistent this" and "containers_are_consistent other"
    and "compare_bl this other = Value c"
  shows "c = 0 \<longleftrightarrow> books_vector this = books_vector other"
  using assms(1,2)
proof (cases rule: compare_bl_cases)
  case shorter
  with assms(3) show ?thesis by auto
next
  case longer
  with assms(3) show ?thesis by auto
next
  case (same c)
  with assms(3) show ?thesis by auto
qed

lemma compare_bl_flip:
  assumes "containers_are_consistent this" and "containers_are_consistent other"
    and "compare_bl this other = Value c"
  shows "compare_bl other this = Value (- c)"
  using assms(1,2)
proof (cases rule: compare_bl_cases)
  case shorter
  with assms show ?thesis by (simp add: compare_bl_consistent)
next
  case longer
  with assms show ?thesis by (simp add: compare_bl_consistent)
next
  case (same d)
  with assms(3) have "d = c" by simp
  with same have "compare_walk (books_vector other) (books_vector this) = Value (- c)"
    by (simp add: compare_walk_flip)
  with same assms show ?thesis by (simp add: compare_bl_consistent)
qed

lemma compare_bl_le_length:
  assumes "containers_are_consistent this" and "containers_are_consistent other"
    and "compare_bl this other = Value c" and "c \<le> 0"
  shows "length (books_vector this) \<le> length (books_vector other)"
  using assms(1,2)
proof (cases rule: compare_bl_cases)
  case shorter
  then show ?thesis by simp
next
  case longer
  with assms show ?thesis by simp
next
  case (same c)
  then show ?thesis by simp
qed

lemma compare_bl_trans:
  assumes c1: "containers_are_consistent this" and c2: "containers_are_consistent other"
    and c3: "containers_are_consistent third"
    and xy: "compare_bl this other = Value x" "x \<le> 0"
    and yz: "compare_bl other third = Value y" "y \<le> 0"
  shows "\<exists>z. compare_bl this third = Value z \<and> z \<le> 0"
proof -
  have l1: "length (books_vector this) \<le> length (books_vector other)"
    using c1 c2 xy by (rule compare_bl_le_length)
  have l2: "length (books_vector other) \<le> length (books_vector third)"
    using c2 c3 yz by (rule compare_bl_le_length)
  show ?thesis
  proof (cases "length (books_vector this) < length (books_vector third)")
    case True
    then show ?thesis using c1 c3 by (simp add: compare_bl_consistent)
  next
    case False
    with l1 l2 have e: "length (books_vector this) = length (books_vector other)"
      "length (books_vector other) = length (books_vector third)" by simp_all
    from xy(1) e c1 c2 have w1: "compare_walk (books_vector this) (books_vector other) = Value x"
      by (simp add: compare_bl_consistent)
    from yz(1) e c2 c3 have w2: "compare_walk (books_vector other) (books_vector third) = Value y"
      by (simp add: compare_bl_consistent)
    from compare_walk_trans[OF e w1 w2 xy(2) yz(2)] show ?thesis
      using e c1 c3 by (simp add: compare_bl_consistent)
  qed
qed

text \<open>
  Claim C5. On consistent lists \<^verbatim>\<open>compare\<close> returns a value \<open>c\<close>: negative when this
  list is shorter than the other, positive when it is longer; on lists of one
  length \<open>- 1\<close> or \<open>1\<close> as the book of this list is less or greater than the book of
  the other list at the first position where they differ, and \<open>0\<close> when the lists
  are equal. Each of the six relational operators returns the comparison of \<open>c\<close>
  with \<open>0\<close>. The order is total: \<open>c\<close> is \<open>0\<close> only for equal sequences, exchanging
  the lists exchanges the sign, and less-or-equal is transitive.
\<close>
theorem compare_is_total_order:
  assumes c1: "containers_are_consistent this" and c2: "containers_are_consistent other"
    and c3: "containers_are_consistent third"
  shows "\<exists>c. compare_bl this other = Value c
    \<and> (length (books_vector this) < length (books_vector other) \<longrightarrow> c < 0)
    \<and> (length (books_vector this) > length (books_vector other) \<longrightarrow> c > 0)
    \<and> (length (books_vector this) = length (books_vector other) \<longrightarrow>
         (\<forall>i < length (books_vector this).
            (\<forall>j < i. books_vector this ! j = books_vector other ! j)
            \<and> books_vector this ! i \<noteq> books_vector other ! i
            \<longrightarrow> c = (if books_vector this ! i < books_vector other ! i then - 1 else 1))
         \<and> (books_vector this = books_vector other \<longrightarrow> c = 0))
    \<and> operator_eq this other = Value (c = 0) \<and> operator_ne this other = Value (c \<noteq> 0)
    \<and> operator_lt this other = Value (c < 0) \<and> operator_le this other = Value (c \<le> 0)
    \<and> operator_gt this other = Value (c > 0) \<and> operator_ge this other = Value (c \<ge> 0)
    \<and> (c = 0 \<longleftrightarrow> books_vector this = books_vector other)
    \<and> compare_bl other this = Value (- c)
    \<and> (\<forall>c'. compare_bl other third = Value c' \<and> c \<le> 0 \<and> c' \<le> 0
           \<longrightarrow> (\<exists>c''. compare_bl this third = Value c'' \<and> c'' \<le> 0))"
proof -
  obtain c where c: "compare_bl this other = Value c"
    using c1 c2 by (cases rule: compare_bl_cases) blast+
  have shorter: "length (books_vector this) < length (books_vector other) \<longrightarrow> c < 0"
    using c c1 c2 by (auto simp: compare_bl_consistent)
  have longer: "length (books_vector this) > length (books_vector other) \<longrightarrow> c > 0"
    using c c1 c2 by (auto simp: compare_bl_consistent)
  have zero: "c = 0 \<longleftrightarrow> books_vector this = books_vector other"
    using c1 c2 c by (rule compare_bl_zero)
  have same: "length (books_vector this) = length (books_vector other) \<longrightarrow>
         (\<forall>i < length (books_vector this).
            (\<forall>j < i. books_vector this ! j = books_vector other ! j)
            \<and> books_vector this ! i \<noteq> books_vector other ! i
            \<longrightarrow> c = (if books_vector this ! i < books_vector other ! i then - 1 else 1))
         \<and> (books_vector this = books_vector other \<longrightarrow> c = 0)"
  proof (intro impI conjI allI)
    fix i
    assume e: "length (books_vector this) = length (books_vector other)"
      and i: "i < length (books_vector this)"
      and d: "(\<forall>j < i. books_vector this ! j = books_vector other ! j)
            \<and> books_vector this ! i \<noteq> books_vector other ! i"
    from d have "\<forall>j < i. books_vector this ! j = books_vector other ! j"
      "books_vector this ! i \<noteq> books_vector other ! i" by simp_all
    from compare_walk_first_difference[OF e i this]
    show "c = (if books_vector this ! i < books_vector other ! i then - 1 else 1)"
      using c c1 c2 e by (simp add: compare_bl_consistent)
  next
    assume "books_vector this = books_vector other"
    with zero show "c = 0" by simp
  qed
  have ops: "operator_eq this other = Value (c = 0)" "operator_ne this other = Value (c \<noteq> 0)"
    "operator_lt this other = Value (c < 0)" "operator_le this other = Value (c \<le> 0)"
    "operator_gt this other = Value (c > 0)" "operator_ge this other = Value (c \<ge> 0)"
    using c by (simp_all add: operator_eq_def operator_ne_def operator_lt_def operator_le_def
        operator_gt_def operator_ge_def against_zero_def)
  have flip: "compare_bl other this = Value (- c)"
    using c1 c2 c by (rule compare_bl_flip)
  have trans: "\<forall>c'. compare_bl other third = Value c' \<and> c \<le> 0 \<and> c' \<le> 0
           \<longrightarrow> (\<exists>c''. compare_bl this third = Value c'' \<and> c'' \<le> 0)"
    using compare_bl_trans[OF c1 c2 c3 c] by blast
  from c shorter longer same ops zero flip trans show ?thesis by blast
qed

text \<open>
  Two lists of three books that differ first at position 1, where 12 is less
  than 13, and a longer third list.
\<close>
theorem compare_is_total_order_witness:
  "containers_are_consistent shelf3 \<and> containers_are_consistent shelf3_swapped
   \<and> containers_are_consistent shelf5_14
   \<and> compare_bl shelf3 shelf3_swapped = Value (- 1)
   \<and> operator_lt shelf3 shelf3_swapped = Value True
   \<and> operator_ge shelf3 shelf3_swapped = Value False
   \<and> compare_bl shelf3_swapped shelf3 = Value 1
   \<and> compare_bl shelf3_swapped shelf5_14 = Value (- 1)
   \<and> (\<exists>c. compare_bl shelf3 shelf5_14 = Value c \<and> c \<le> 0)"
proof -
  have c1: "containers_are_consistent shelf3"
    by (simp add: shelf3_def containers_are_consistent_def books_sl_list_size_def)
  have c2: "containers_are_consistent shelf3_swapped"
    by (simp add: shelf3_swapped_def containers_are_consistent_def books_sl_list_size_def)
  have c3: "containers_are_consistent shelf5_14"
    by (simp add: shelf5_14_def containers_are_consistent_def books_sl_list_size_def)
  have l: "length (books_vector shelf3) = length (books_vector shelf3_swapped)"
    "(1::nat) < length (books_vector shelf3)"
    by (simp_all add: shelf3_def shelf3_swapped_def)
  have d: "(\<forall>j < 1. books_vector shelf3 ! j = books_vector shelf3_swapped ! j)
            \<and> books_vector shelf3 ! 1 \<noteq> books_vector shelf3_swapped ! 1"
    by (simp add: shelf3_def shelf3_swapped_def)
  have v: "books_vector shelf3 ! 1 < books_vector shelf3_swapped ! 1"
    by (simp add: shelf3_def shelf3_swapped_def)
  have n: "compare_bl shelf3_swapped shelf5_14 = Value (- 1)"
    using c2 c3 by (simp add: compare_bl_def size_bl_def) (simp add: shelf3_swapped_def shelf5_14_def)
  from compare_is_total_order[OF c1 c2 c3] obtain c where
    c: "compare_bl shelf3 shelf3_swapped = Value c"
    and first: "\<forall>i < length (books_vector shelf3).
            (\<forall>j < i. books_vector shelf3 ! j = books_vector shelf3_swapped ! j)
            \<and> books_vector shelf3 ! i \<noteq> books_vector shelf3_swapped ! i
            \<longrightarrow> c = (if books_vector shelf3 ! i < books_vector shelf3_swapped ! i then - 1 else 1)"
    and ops: "operator_lt shelf3 shelf3_swapped = Value (c < 0)"
      "operator_ge shelf3 shelf3_swapped = Value (c \<ge> 0)"
    and flip: "compare_bl shelf3_swapped shelf3 = Value (- c)"
    and trans: "\<forall>c'. compare_bl shelf3_swapped shelf5_14 = Value c' \<and> c \<le> 0 \<and> c' \<le> 0
           \<longrightarrow> (\<exists>c''. compare_bl shelf3 shelf5_14 = Value c'' \<and> c'' \<le> 0)"
    using l by blast
  from first l(2) d v have "c = - 1" by auto
  with c ops flip trans n c1 c2 c3 show ?thesis by simp
qed

subsection \<open>Every call keeps the containers consistent\<close>

lemma keeps_invariant_same:
  "containers_are_consistent bl \<Longrightarrow> keeps_invariant bl (Returned bl)"
  "containers_are_consistent bl \<Longrightarrow> keeps_invariant bl (Thrown e bl)"
  by (simp_all add: keeps_invariant_def)

lemma keeps_invariant_trans:
  assumes "keeps_invariant bl (Returned bl1)" and "keeps_invariant bl1 r"
  shows "keeps_invariant bl r"
  using assms by (simp add: keeps_invariant_def)

lemma keeps_invariantD:
  assumes "keeps_invariant bl r" and "left_in r = Some bl'"
  shows "containers_are_consistent bl'" and "length (books_array bl') = length (books_array bl)"
    and "distinct (books_vector bl) \<Longrightarrow> distinct (books_vector bl')"
  using assms by (simp_all add: keeps_invariant_def)

lemma insert_at_preserves:
  assumes c: "containers_are_consistent bl" and cap: "length (books_array bl) \<le> Suc INT_MAX"
  shows "keeps_invariant bl (insert_at book offset bl)"
proof (cases "offset \<le> length (books_vector bl)")
  case False
  then show ?thesis using c by (simp add: insert_at_beyond keeps_invariant_same)
next
  case off: True
  show ?thesis
  proof (cases "book \<in> set (books_vector bl)")
    case True
    then show ?thesis using c off by (simp add: insert_at_duplicate keeps_invariant_same)
  next
    case absent: False
    from c have sz: "books_array_size bl = length (books_vector bl)" by (simp add: consistent_iff)
    show ?thesis
    proof (cases "books_array_size bl \<ge> length (books_array bl)")
      case True
      then show ?thesis using c off absent by (simp add: insert_at_full keeps_invariant_same)
    next
      case False
      with sz have room: "length (books_vector bl) < length (books_array bl)" by simp
      with cap have small: "length (books_vector bl) \<le> INT_MAX" by simp
      from insert_at_new[OF c absent off room small] obtain bl' where
        r: "insert_at book offset bl = Returned bl'" and c': "containers_are_consistent bl'"
        and v: "books_vector bl' = take offset (books_vector bl) @ book # drop offset (books_vector bl)"
        and l: "length (books_array bl') = length (books_array bl)" by blast
      have "distinct (books_vector bl) \<longrightarrow> distinct (books_vector bl')"
      proof
        assume dv: "distinct (books_vector bl)"
        from distinct_insert_middle[OF dv absent, of offset]
        show "distinct (books_vector bl')" by (simp only: v)
      qed
      with r c' l show ?thesis by (simp add: keeps_invariant_def)
    qed
  qed
qed

lemma insert_pos_preserves:
  assumes c: "containers_are_consistent bl" and cap: "length (books_array bl) \<le> Suc INT_MAX"
  shows "keeps_invariant bl (insert_pos book position bl)"
  using insert_at_preserves[OF c cap] by (simp add: insert_pos_eq[OF c])

lemma distinct_take_drop: "distinct xs \<Longrightarrow> distinct (take k xs @ drop (Suc k) xs)"
proof -
  assume "distinct xs"
  then have "distinct (take k xs @ drop k xs)" by simp
  then have "distinct (take k xs)" "distinct (drop k xs)"
    "set (take k xs) \<inter> set (drop k xs) = {}" by (simp_all only: distinct_append)
  moreover have "set (drop (Suc k) xs) \<subseteq> set (drop k xs)"
    by (metis Suc_n_not_le_n nat_le_linear set_drop_subset_set_drop)
  moreover have "distinct (drop (Suc k) xs)" using \<open>distinct xs\<close> by simp
  ultimately show ?thesis by (simp only: distinct_append) blast
qed

lemma remove_at_preserves:
  assumes c: "containers_are_consistent bl"
  shows "keeps_invariant bl (remove_at moved offset bl)"
proof (cases "offset < length (books_vector bl)")
  case True
  from remove_at_inside[OF c True, of moved] obtain bl' where
    r: "remove_at moved offset bl = Returned bl'" and c': "containers_are_consistent bl'"
    and v: "books_vector bl' = take offset (books_vector bl) @ drop (Suc offset) (books_vector bl)"
    and l: "length (books_array bl') = length (books_array bl)" by blast
  have "distinct (books_vector bl) \<longrightarrow> distinct (books_vector bl')"
  proof
    assume dv: "distinct (books_vector bl)"
    from distinct_take_drop[OF dv, of offset]
    show "distinct (books_vector bl')" by (simp only: v)
  qed
  with r c' l show ?thesis by (simp add: keeps_invariant_def)
next
  case False
  then show ?thesis using c by (simp add: remove_at_outside keeps_invariant_same)
qed

lemma remove_book_preserves:
  assumes c: "containers_are_consistent bl"
  shows "keeps_invariant bl (remove_book moved book bl)"
  using remove_at_preserves[OF c] by (simp add: remove_book_def find_bl_consistent[OF c])

lemma checked_consistent: "containers_are_consistent bl \<Longrightarrow> checked bl = Returned bl"
  by (simp add: checked_def)

lemma checked_after_preserves:
  assumes "keeps_invariant bl r"
  shows "keeps_invariant bl (case r of Returned bl' \<Rightarrow> checked bl' | raised \<Rightarrow> raised)"
  using assms by (cases r) (simp_all add: checked_consistent keeps_invariant_def)

lemma then_preserves:
  assumes first: "keeps_invariant bl r"
    and "next": "\<And>bl1. r = Returned bl1 \<Longrightarrow> containers_are_consistent bl1 \<Longrightarrow>
                  length (books_array bl1) = length (books_array bl) \<Longrightarrow> keeps_invariant bl1 (f bl1)"
  shows "keeps_invariant bl (case r of Returned bl1 \<Rightarrow> f bl1 | raised \<Rightarrow> raised)"
proof (cases r)
  case (Returned bl1)
  with first have k: "keeps_invariant bl (Returned bl1)" by simp
  then have "containers_are_consistent bl1" "length (books_array bl1) = length (books_array bl)"
    by (simp_all add: keeps_invariant_def)
  with "next" Returned have "keeps_invariant bl1 (f bl1)" by simp
  with k have "keeps_invariant bl (f bl1)" by (rule keeps_invariant_trans)
  with Returned show ?thesis by simp
next
  case (Thrown e bl1)
  with first show ?thesis by simp
next
  case Undefined
  with first show ?thesis by simp
qed

lemma move_to_top_preserves:
  assumes c: "containers_are_consistent bl" and cap: "length (books_array bl) \<le> Suc INT_MAX"
  shows "keeps_invariant bl (move_to_top moved book bl)"
proof (cases "std_find (books_vector bl) book \<noteq> length (books_vector bl)")
  case False
  then have "move_to_top moved book bl = Returned bl"
    using c by (simp add: move_to_top_def find_bl_consistent size_bl_consistent checked_consistent)
  then show ?thesis using c by (simp add: keeps_invariant_same)
next
  case True
  then have m: "move_to_top moved book bl =
      (case remove_book moved book bl of
              Returned bl1 \<Rightarrow>
                (case insert_at book 0 bl1 of Returned bl2 \<Rightarrow> checked bl2 | raised \<Rightarrow> raised)
            | raised \<Rightarrow> raised)"
    using c by (simp add: move_to_top_def find_bl_consistent size_bl_consistent)
  show ?thesis unfolding m
  proof (rule then_preserves)
    show "keeps_invariant bl (remove_book moved book bl)" using c by (rule remove_book_preserves)
  next
    fix bl1 :: "'a BookList"
    assume c1: "containers_are_consistent bl1"
      and l1: "length (books_array bl1) = length (books_array bl)"
    from l1 cap have "length (books_array bl1) \<le> Suc INT_MAX" by simp
    with c1 have "keeps_invariant bl1 (insert_at book 0 bl1)" by (rule insert_at_preserves)
    then show "keeps_invariant bl1
        (case insert_at book 0 bl1 of Returned bl2 \<Rightarrow> checked bl2 | raised \<Rightarrow> raised)"
      by (rule checked_after_preserves)
  qed
qed

lemma insert_each_preserves:
  "containers_are_consistent bl \<Longrightarrow> length (books_array bl) \<le> Suc INT_MAX \<Longrightarrow>
   keeps_invariant bl (insert_each books bl)"
proof (induction books arbitrary: bl)
  case Nil
  then show ?case by (simp add: keeps_invariant_same)
next
  case (Cons book books)
  have "keeps_invariant bl
          (case insert_pos book BOTTOM bl of Returned bl' \<Rightarrow> insert_each books bl'
           | raised \<Rightarrow> raised)"
  proof (rule then_preserves)
    show "keeps_invariant bl (insert_pos book BOTTOM bl)"
      using Cons.prems by (rule insert_pos_preserves)
  next
    fix bl1 :: "'a BookList"
    assume c1: "containers_are_consistent bl1"
      and l1: "length (books_array bl1) = length (books_array bl)"
    from l1 Cons.prems have "length (books_array bl1) \<le> Suc INT_MAX" by simp
    with c1 show "keeps_invariant bl1 (insert_each books bl1)" by (rule Cons.IH)
  qed
  then show ?case by simp
qed

lemma plus_eq_preserves:
  assumes "containers_are_consistent bl" and "length (books_array bl) \<le> Suc INT_MAX"
  shows "keeps_invariant bl (plus_eq rhs bl)"
  unfolding plus_eq_def by (rule checked_after_preserves) (rule insert_each_preserves[OF assms])

lemma plus_eq_init_preserves:
  assumes "containers_are_consistent bl" and "length (books_array bl) \<le> Suc INT_MAX"
  shows "keeps_invariant bl (plus_eq_init books bl)"
  unfolding plus_eq_init_def by (rule checked_after_preserves) (rule insert_each_preserves[OF assms])

lemma BookList_default_consistent:
  "containers_are_consistent (BookList_default capacity default_book)
   \<and> length (books_array (BookList_default capacity default_book)) = capacity
   \<and> books_vector (BookList_default capacity default_book) = []"
  by (simp add: BookList_default_def containers_are_consistent_def books_sl_list_size_def)

lemma swap_bl_preserves:
  assumes "containers_are_consistent this" and "containers_are_consistent rhs"
  shows "containers_are_consistent (fst (swap_bl this rhs))
       \<and> length (books_array (fst (swap_bl this rhs))) = length (books_array rhs)
       \<and> books_vector (fst (swap_bl this rhs)) = books_vector rhs
       \<and> containers_are_consistent (snd (swap_bl this rhs))
       \<and> length (books_array (snd (swap_bl this rhs))) = length (books_array this)
       \<and> books_vector (snd (swap_bl this rhs)) = books_vector this"
  using assms by (simp add: swap_bl_def consistent_iff)

lemma extract_books_preserves:
  assumes run: "extract_books get_book count stream bl = Some y"
  shows "containers_are_consistent bl \<longrightarrow> length (books_array bl) \<le> Suc INT_MAX \<longrightarrow>
         keeps_invariant bl (fst y)"
proof (rule extract_books.raw_induct[where P = "\<lambda>get_book count stream bl y.
         containers_are_consistent bl \<longrightarrow> length (books_array bl) \<le> Suc INT_MAX \<longrightarrow>
         keeps_invariant bl (fst y)", OF _ run])
  fix loop :: "(istream \<Rightarrow> 'a \<times> istream) \<Rightarrow> nat \<Rightarrow> istream \<Rightarrow> 'a BookList
                 \<Rightarrow> ('a outcome \<times> istream) option"
  fix get_book :: "istream \<Rightarrow> 'a \<times> istream"
  fix count :: nat and stream :: istream and bl :: "'a BookList" and y :: "'a outcome \<times> istream"
  assume IH: "\<And>get_book count stream bl y. loop get_book count stream bl = Some y \<Longrightarrow>
         containers_are_consistent bl \<longrightarrow> length (books_array bl) \<le> Suc INT_MAX \<longrightarrow>
         keeps_invariant bl (fst y)"
  assume body: "(if count \<noteq> books_sl_list_size bl
      then case get_book (ignore 4 stream) of
           (temp_book, stream') \<Rightarrow>
             case insert_pos temp_book BOTTOM bl of
             Returned book_list' \<Rightarrow> loop get_book count stream' book_list'
             | Thrown e book_list' \<Rightarrow> Some (Thrown e book_list', stream')
             | Undefined \<Rightarrow> Some (Undefined, stream')
      else Some (Returned bl, stream)) = Some y"
  show "containers_are_consistent bl \<longrightarrow> length (books_array bl) \<le> Suc INT_MAX \<longrightarrow>
         keeps_invariant bl (fst y)"
  proof (intro impI)
    assume c: "containers_are_consistent bl" and cap: "length (books_array bl) \<le> Suc INT_MAX"
    show "keeps_invariant bl (fst y)"
    proof (cases "count \<noteq> books_sl_list_size bl")
      case False
      with body have "y = (Returned bl, stream)" by simp
      with c show ?thesis by (simp add: keeps_invariant_same)
    next
      case True
      obtain temp_book stream1 where g: "get_book (ignore 4 stream) = (temp_book, stream1)"
        by (cases "get_book (ignore 4 stream)")
      note ins = insert_pos_preserves[OF c cap, of temp_book BOTTOM]
      show ?thesis
      proof (cases "insert_pos temp_book BOTTOM bl")
        case (Returned bl1)
        with ins have k: "keeps_invariant bl (Returned bl1)" by simp
        then have c1: "containers_are_consistent bl1"
          and l1: "length (books_array bl1) = length (books_array bl)"
          by (simp_all add: keeps_invariant_def)
        from body True g Returned have "loop get_book count stream1 bl1 = Some y" by simp
        from IH[OF this] c1 l1 cap have "keeps_invariant bl1 (fst y)" by simp
        with k show ?thesis by (rule keeps_invariant_trans)
      next
        case (Thrown e bl1)
        with body True g have "y = (Thrown e bl1, stream1)" by simp
        with ins Thrown show ?thesis by simp
      next
        case Undefined
        with ins show ?thesis by (simp add: keeps_invariant_def)
      qed
    qed
  qed
qed

lemma operator_rshift_preserves:
  assumes run: "operator_rshift get_book stream bl = Some (r, stream')"
    and c: "containers_are_consistent bl" and cap: "length (books_array bl) \<le> Suc INT_MAX"
    and l: "left_in r = Some bl'"
  shows "containers_are_consistent bl' \<and> length (books_array bl') = length (books_array bl)
         \<and> (distinct (books_vector bl) \<longrightarrow> distinct (books_vector bl'))"
proof (cases "extract_size_t stream")
  case (Pair stored stream1)
  show ?thesis
  proof (cases stored)
    case None
    with Pair run c have "r = Undefined" by (simp add: operator_rshift_def)
    with l show ?thesis by simp
  next
    case (Some count)
    with Pair run c have "extract_books get_book count (ignore 1 stream1) bl = Some (r, stream')"
      by (simp add: operator_rshift_def)
    from extract_books_preserves[OF this] c cap l show ?thesis by (simp add: keeps_invariant_def)
  qed
qed

lemma reachable_invariant:
  assumes "reachable capacity default_book moved get_book bl" and cap: "capacity \<le> Suc INT_MAX"
  shows "containers_are_consistent bl \<and> length (books_array bl) = capacity
         \<and> distinct (books_vector bl)"
  using assms(1)
proof (induction rule: reachable.induct)
  case constructed
  show ?case using BookList_default_consistent[of capacity default_book] by simp
next
  case (by_insert_at bl book offset bl')
  then have "keeps_invariant bl (insert_at book offset bl)"
    using cap by (intro insert_at_preserves) simp_all
  from keeps_invariantD[OF this by_insert_at.hyps(2)] by_insert_at.IH show ?case by simp
next
  case (by_insert_pos bl book position bl')
  then have "keeps_invariant bl (insert_pos book position bl)"
    using cap by (intro insert_pos_preserves) simp_all
  from keeps_invariantD[OF this by_insert_pos.hyps(2)] by_insert_pos.IH show ?case by simp
next
  case (by_remove_at bl offset bl')
  then have "keeps_invariant bl (remove_at moved offset bl)"
    by (intro remove_at_preserves) simp_all
  from keeps_invariantD[OF this by_remove_at.hyps(2)] by_remove_at.IH show ?case by simp
next
  case (by_remove_book bl book bl')
  then have "keeps_invariant bl (remove_book moved book bl)"
    by (intro remove_book_preserves) simp_all
  from keeps_invariantD[OF this by_remove_book.hyps(2)] by_remove_book.IH show ?case by simp
next
  case (by_move_to_top bl book bl')
  then have "keeps_invariant bl (move_to_top moved book bl)"
    using cap by (intro move_to_top_preserves) simp_all
  from keeps_invariantD[OF this by_move_to_top.hyps(2)] by_move_to_top.IH show ?case by simp
next
  case (by_plus_eq bl rhs bl')
  then have "keeps_invariant bl (plus_eq rhs bl)"
    using cap by (intro plus_eq_preserves) simp_all
  from keeps_invariantD[OF this by_plus_eq.hyps(3)] by_plus_eq.IH show ?case by simp
next
  case (by_plus_eq_init bl books bl')
  then have "keeps_invariant bl (plus_eq_init books bl)"
    using cap by (intro plus_eq_init_preserves) simp_all
  from keeps_invariantD[OF this by_plus_eq_init.hyps(2)] by_plus_eq_init.IH show ?case by simp
next
  case (by_swap_this bl rhs)
  then show ?case using swap_bl_preserves[of bl rhs] by simp
next
  case (by_swap_rhs bl rhs)
  then show ?case using swap_bl_preserves[of bl rhs] by simp
next
  case (by_rshift bl stream r stream' bl')
  from by_rshift.IH cap have c: "containers_are_consistent bl"
    and l: "length (books_array bl) \<le> Suc INT_MAX" by simp_all
  from operator_rshift_preserves[OF by_rshift.hyps(2) c l by_rshift.hyps(3)] by_rshift.IH
  show ?case by simp
qed

text \<open>
  Claim C1. Every list reached from the default-constructed list by calls of
  \<^verbatim>\<open>insert\<close>, \<^verbatim>\<open>remove\<close>, \<^verbatim>\<open>move_to_top\<close>, \<^verbatim>\<open>operator+=\<close>, \<^verbatim>\<open>swap\<close> and
  \<^verbatim>\<open>operator>>\<close>, whether they return or throw, passes
  \<^verbatim>\<open>containers_are_consistent\<close>: the element count of the array and the lengths of
  the vector and the two linked lists are equal, and the elements of the array,
  the vector and the two linked lists are the same sequence. The capacity of the
  array is taken to be at most \<open>2 ^ 31\<close>, so that the \<^verbatim>\<open>int\<close> counter of the array
  shift holds every element count.
\<close>
theorem reachable_consistent:
  assumes "reachable capacity default_book moved get_book bl" and "capacity \<le> Suc INT_MAX"
  shows "containers_are_consistent bl
    \<and> books_array_size bl = length (books_vector bl)
    \<and> length (books_dl_list bl) = length (books_vector bl)
    \<and> length (books_sl_list bl) = length (books_vector bl)
    \<and> take (books_array_size bl) (books_array bl) = books_vector bl
    \<and> books_dl_list bl = books_vector bl
    \<and> books_sl_list bl = books_vector bl"
proof -
  from reachable_invariant[OF assms] have c: "containers_are_consistent bl" by simp
  then show ?thesis by (simp add: consistent_iff)
qed

text \<open>Four books appended to the default-constructed list of capacity 5.\<close>
theorem reachable_consistent_witness:
  "reachable 5 0 (\<lambda>dst src. 0) sample_get_book shelf5_14 \<and> 5 \<le> Suc INT_MAX
   \<and> containers_are_consistent shelf5_14
   \<and> take (books_array_size shelf5_14) (books_array shelf5_14) = [11, 12, 13, 14]
   \<and> books_dl_list shelf5_14 = [11, 12, 13, 14] \<and> books_sl_list shelf5_14 = [11, 12, 13, 14]"
proof -
  have "plus_eq_init [11, 12, 13, 14] (BookList_default 5 0) = Returned shelf5_14"
    by code_simp
  then have "left_in (plus_eq_init [11, 12, 13, 14] (BookList_default 5 0)) = Some shelf5_14"
    by simp
  with constructed[of 5 0 "\<lambda>dst src. 0" sample_get_book]
  have r: "reachable 5 0 (\<lambda>dst src. 0) sample_get_book shelf5_14"
    by (rule by_plus_eq_init)
  have b: "5 \<le> Suc INT_MAX" by (simp add: INT_MAX_def)
  from reachable_consistent[OF r b] r b show ?thesis by (simp add: shelf5_14_def)
qed

subsection \<open>Decimal numbers in streams\<close>

lemma of_char_digit_char: "d < 10 \<Longrightarrow> (of_char (digit_char d) :: nat) = 48 + d"
  by (simp add: digit_char_def)

lemma isdigit_digit_char: "d < 10 \<Longrightarrow> isdigit (digit_char d)"
  by (simp add: isdigit_def of_char_digit_char)

lemma isdigit_not_other:
  "isdigit c \<Longrightarrow> \<not> isspace c \<and> c \<noteq> CHR ''-'' \<and> c \<noteq> CHR ''+'' \<and> c \<noteq> CHR '':'' \<and> c \<noteq> CHR 0x0A"
  by (auto simp: isdigit_def isspace_def)

lemma decimal_small: "n < 10 \<Longrightarrow> decimal n = [digit_char n]"
  by (subst decimal.simps) simp

lemma decimal_large: "\<not> n < 10 \<Longrightarrow> decimal n = decimal (n div 10) @ [digit_char (n mod 10)]"
  by (subst decimal.simps) simp

lemma decimal_digits: "c \<in> set (decimal n) \<Longrightarrow> isdigit c"
proof (induction n arbitrary: c rule: decimal.induct)
  case (1 n)
  show ?case
  proof (cases "n < 10")
    case True
    with "1.prems" show ?thesis by (simp add: decimal_small isdigit_digit_char)
  next
    case False
    with "1.prems" have "c \<in> set (decimal (n div 10)) \<or> c = digit_char (n mod 10)"
      by (auto simp: decimal_large)
    then show ?thesis using "1.IH"[OF False] by (auto simp: isdigit_digit_char)
  qed
qed

lemma decimal_not_empty: "decimal n \<noteq> []"
  by (cases "n < 10") (simp_all add: decimal_small decimal_large)

lemma digits_value_snoc:
  "digits_value (ds @ [c]) = 10 * digits_value ds + (of_char c - 48)"
  by (simp add: digits_value_def)

lemma digits_value_decimal: "digits_value (decimal n) = n"
proof (induction n rule: decimal.induct)
  case (1 n)
  show ?case
  proof (cases "n < 10")
    case True
    then show ?thesis by (simp add: decimal_small digits_value_def of_char_digit_char)
  next
    case False
    then have "digits_value (decimal n) = 10 * (n div 10) + n mod 10"
      using "1.IH"[OF False] by (simp add: decimal_large digits_value_snoc of_char_digit_char)
    then show ?thesis by simp
  qed
qed

lemma takeWhile_digits:
  "\<not> isdigit c \<Longrightarrow> takeWhile isdigit (decimal n @ c # rest) = decimal n"
  by (simp add: takeWhile_append2 decimal_digits)

lemma dropWhile_digits:
  "\<not> isdigit c \<Longrightarrow> dropWhile isdigit (decimal n @ c # rest) = c # rest"
  by (simp add: dropWhile_append2 decimal_digits)

lemma decimal_hd: "\<exists>c cs. decimal n = c # cs \<and> isdigit c"
proof (cases "decimal n")
  case Nil
  then show ?thesis using decimal_not_empty by blast
next
  case (Cons c cs)
  then have "c \<in> set (decimal n)" by simp
  then show ?thesis using Cons decimal_digits by blast
qed

lemma extract_size_t_decimal:
  assumes n: "n \<le> Suc INT_MAX" and c: "\<not> isdigit c"
  shows "extract_size_t \<lparr>buffer = decimal n @ c # rest, good = True\<rparr>
           = (Some n, \<lparr>buffer = c # rest, good = True\<rparr>)"
proof -
  obtain d ds where d: "decimal n = d # ds" "isdigit d" using decimal_hd by blast
  from d(2) have nd: "\<not> isspace d" "d \<noteq> CHR ''-''" "d \<noteq> CHR ''+''"
    using isdigit_not_other by blast+
  have skip: "dropWhile isspace (decimal n @ c # rest) = decimal n @ c # rest"
    using d nd by simp
  have hd: "hd (decimal n @ c # rest) = d" using d by simp
  have tw: "takeWhile isdigit (decimal n @ c # rest) = decimal n"
    and dw: "dropWhile isdigit (decimal n @ c # rest) = c # rest"
    using c by (simp_all add: takeWhile_digits dropWhile_digits)
  have "n \<le> 2 ^ 31" using n by (simp add: INT_MAX_def)
  also have "(2::nat) ^ 31 < 2 ^ 64" by simp
  finally have small: "\<not> n \<ge> 2 ^ 64" by simp
  have ne: "decimal n @ c # rest \<noteq> []" by simp
  show ?thesis
    unfolding extract_size_t_def
    by (simp only: skip Let_def hd nd tw dw digits_value_decimal small decimal_not_empty ne
        istream.simps if_False if_True simp_thms list.simps)
qed

subsection \<open>Reading back what was written\<close>

lemma setw_length: "5 \<le> length (setw 5 field)"
  by (simp add: setw_def)

lemma setw_label:
  "list_all (\<lambda>c. c = CHR 0x20 \<or> isdigit c) (drop k (setw 5 (decimal i)))"
proof -
  have "\<forall>c \<in> set (setw 5 (decimal i)). c = CHR 0x20 \<or> isdigit c"
    by (auto simp: setw_def decimal_digits)
  then show ?thesis by (auto simp: list_all_iff dest: in_set_dropD)
qed

lemma put_entries_Nil: "put_entries put_book count [] = Some []"
  by simp

lemma put_entries_Cons:
  "put_entries put_book (int i) (book # books) = Some text \<Longrightarrow>
   \<exists>text'. put_entries put_book (int (Suc i)) books = Some text'
     \<and> text = CHR 0x0A # setw 5 (decimal i) @ '':  '' @ put_book book @ text'"
  by (auto simp: add.commute split: if_splits)

lemma put_entries_defined:
  "i + length books \<le> INT_MAX \<Longrightarrow> \<exists>text. put_entries put_book (int i) books = Some text"
proof (induction books arbitrary: i)
  case Nil
  show ?case by simp
next
  case (Cons book books)
  then have "Suc i + length books \<le> INT_MAX" by simp
  from Cons.IH[OF this] obtain entries where t: "put_entries put_book (int (Suc i)) books = Some entries"
    by blast
  have "i < INT_MAX" using Cons.prems by simp
  then have "int i < 2 ^ 31 - 1" by (simp add: INT_MAX_def)
  then have "\<not> int i \<ge> 2 ^ 31 - 1" by simp
  with t show ?case by (simp add: add.commute)
qed

lemma put_entries_newline:
  "put_entries put_book count books = Some text \<Longrightarrow> \<exists>rest. text @ CHR 0x0A # tail = CHR 0x0A # rest"
  by (cases books) (auto split: if_splits)

lemma ignore_good:
  "n \<le> length text \<Longrightarrow>
   ignore n \<lparr>buffer = text, good = True\<rparr> = \<lparr>buffer = drop n text, good = True\<rparr>"
  by (simp add: ignore_def)

lemma insert_pos_bottom_new:
  assumes c: "containers_are_consistent bl"
    and absent: "book \<notin> set (books_vector bl)"
    and room: "length (books_vector bl) < length (books_array bl)"
    and cap: "length (books_array bl) \<le> Suc INT_MAX"
  shows "\<exists>bl'. insert_pos book BOTTOM bl = Returned bl' \<and> containers_are_consistent bl'
           \<and> books_vector bl' = books_vector bl @ [book]
           \<and> length (books_array bl') = length (books_array bl)"
proof -
  from room cap have small: "length (books_vector bl) \<le> INT_MAX" by simp
  from insert_at_new[OF c absent le_refl room small]
  show ?thesis by (simp add: insert_pos_eq[OF c])
qed

lemma extract_books_done:
  "count = books_sl_list_size bl \<Longrightarrow>
   extract_books get_book count stream bl = Some (Returned bl, stream)"
  by (subst extract_books.simps) simp

lemma extract_books_entry:
  assumes rb: "reads_back put_book get_book {book}"
    and pre: "length pre = 4"
    and label: "list_all (\<lambda>c. c = CHR 0x20 \<or> isdigit c) label"
    and c: "containers_are_consistent bl"
    and absent: "book \<notin> set (books_vector bl)"
    and room: "length (books_vector bl) < length (books_array bl)"
    and cap: "length (books_array bl) \<le> Suc INT_MAX"
    and more: "count \<noteq> length (books_vector bl)"
  shows "\<exists>bl'. extract_books get_book count
                 \<lparr>buffer = pre @ label @ '':  '' @ put_book book @ CHR 0x0A # rest, good = True\<rparr> bl
               = extract_books get_book count \<lparr>buffer = CHR 0x0A # rest, good = True\<rparr> bl'
           \<and> containers_are_consistent bl'
           \<and> books_vector bl' = books_vector bl @ [book]
           \<and> length (books_array bl') = length (books_array bl)"
proof -
  let ?stream = "\<lparr>buffer = pre @ label @ '':  '' @ put_book book @ CHR 0x0A # rest, good = True\<rparr>"
  from c have sl: "books_sl_list_size bl = length (books_vector bl)"
    by (simp add: consistent_iff books_sl_list_size_def)
  have ig: "ignore 4 ?stream
              = \<lparr>buffer = label @ '':  '' @ put_book book @ CHR 0x0A # rest, good = True\<rparr>"
    using pre by (simp add: ignore_def)
  have get: "get_book (ignore 4 ?stream) = (book, \<lparr>buffer = CHR 0x0A # rest, good = True\<rparr>)"
    using rb label unfolding ig reads_back_def by blast
  from insert_pos_bottom_new[OF c absent room cap] obtain bl' where
    ins: "insert_pos book BOTTOM bl = Returned bl'" and c': "containers_are_consistent bl'"
    and v: "books_vector bl' = books_vector bl @ [book]"
    and l: "length (books_array bl') = length (books_array bl)" by blast
  have "extract_books get_book count ?stream bl
          = extract_books get_book count \<lparr>buffer = CHR 0x0A # rest, good = True\<rparr> bl'"
    by (subst extract_books.simps)
       (simp only: sl more get ins if_True not_False_eq_True prod.case outcome.case)
  with c' v l show ?thesis by blast
qed

lemma reads_back_subset:
  "reads_back put_book get_book books \<Longrightarrow> books' \<subseteq> books \<Longrightarrow>
   reads_back put_book get_book books'"
  unfolding reads_back_def by blast

lemma extract_books_entries:
  assumes rb: "reads_back put_book get_book (set books)"
    and put: "put_entries put_book (int i) books = Some entries"
    and c: "containers_are_consistent bl"
    and d: "distinct (books_vector bl @ books)"
    and room: "length (books_vector bl) + length books \<le> length (books_array bl)"
    and cap: "length (books_array bl) \<le> Suc INT_MAX"
    and count: "count = length (books_vector bl) + length books"
  shows "\<exists>bl'. extract_books get_book count \<lparr>buffer = entries @ CHR 0x0A # tail, good = True\<rparr> bl
               = Some (Returned bl', \<lparr>buffer = CHR 0x0A # tail, good = True\<rparr>)
           \<and> containers_are_consistent bl'
           \<and> books_vector bl' = books_vector bl @ books
           \<and> length (books_array bl') = length (books_array bl)"
  using assms
proof (induction books arbitrary: i entries bl)
  case Nil
  then have "count = books_sl_list_size bl"
    by (simp add: consistent_iff books_sl_list_size_def)
  then have "extract_books get_book count \<lparr>buffer = entries @ CHR 0x0A # tail, good = True\<rparr> bl
               = Some (Returned bl, \<lparr>buffer = entries @ CHR 0x0A # tail, good = True\<rparr>)"
    by (rule extract_books_done)
  moreover from Nil.prems(2) have "entries = []" by simp
  ultimately show ?case using Nil.prems(3) by simp
next
  case (Cons book books)
  from put_entries_Cons[OF Cons.prems(2)] obtain entries' where
    put': "put_entries put_book (int (Suc i)) books = Some entries'"
    and e: "entries = CHR 0x0A # setw 5 (decimal i) @ '':  '' @ put_book book @ entries'"
    by blast
  from put_entries_newline[OF put', of tail] obtain rest where
    rest: "entries' @ CHR 0x0A # tail = CHR 0x0A # rest" by blast
  let ?pre = "CHR 0x0A # take 3 (setw 5 (decimal i))"
  let ?label = "drop 3 (setw 5 (decimal i))"
  have buf: "entries @ CHR 0x0A # tail
               = ?pre @ ?label @ '':  '' @ put_book book @ CHR 0x0A # rest"
  proof -
    have "setw 5 (decimal i) = take 3 (setw 5 (decimal i)) @ drop 3 (setw 5 (decimal i))"
      by simp
    then have "entries @ CHR 0x0A # tail
          = (CHR 0x0A # (take 3 (setw 5 (decimal i)) @ drop 3 (setw 5 (decimal i))))
            @ '':  '' @ put_book book @ (entries' @ CHR 0x0A # tail)"
      unfolding e by (simp only: append_Cons append_assoc)
    then show ?thesis unfolding rest by (simp only: append_Cons append_assoc)
  qed
  have pre: "length ?pre = 4" using setw_length[of "decimal i"] by simp
  have rb1: "reads_back put_book get_book {book}"
    using Cons.prems(1) by (rule reads_back_subset) simp
  have absent: "book \<notin> set (books_vector bl)" using Cons.prems(4) by simp
  have room1: "length (books_vector bl) < length (books_array bl)" using Cons.prems(5) by simp
  have more: "count \<noteq> length (books_vector bl)" using Cons.prems(7) by simp
  from extract_books_entry[OF rb1 pre setw_label Cons.prems(3) absent room1 Cons.prems(6) more,
      of 3 i rest]
  obtain bl1 where
    step: "extract_books get_book count
             \<lparr>buffer = ?pre @ ?label @ '':  '' @ put_book book @ CHR 0x0A # rest, good = True\<rparr> bl
           = extract_books get_book count \<lparr>buffer = CHR 0x0A # rest, good = True\<rparr> bl1"
    and c1: "containers_are_consistent bl1"
    and v1: "books_vector bl1 = books_vector bl @ [book]"
    and l1: "length (books_array bl1) = length (books_array bl)" by blast
  have rb': "reads_back put_book get_book (set books)"
    using Cons.prems(1) by (rule reads_back_subset) auto
  have d1: "distinct (books_vector bl1 @ books)" using Cons.prems(4) v1 by simp
  have r1: "length (books_vector bl1) + length books \<le> length (books_array bl1)"
    using Cons.prems(5) v1 l1 by simp
  have cap1: "length (books_array bl1) \<le> Suc INT_MAX" using Cons.prems(6) l1 by simp
  have cnt1: "count = length (books_vector bl1) + length books" using Cons.prems(7) v1 by simp
  from Cons.IH[OF rb' put' c1 d1 r1 cap1 cnt1] obtain bl' where
    run: "extract_books get_book count \<lparr>buffer = entries' @ CHR 0x0A # tail, good = True\<rparr> bl1
               = Some (Returned bl', \<lparr>buffer = CHR 0x0A # tail, good = True\<rparr>)"
    and c': "containers_are_consistent bl'"
    and v': "books_vector bl' = books_vector bl1 @ books"
    and l': "length (books_array bl') = length (books_array bl1)" by blast
  have "extract_books get_book count \<lparr>buffer = entries @ CHR 0x0A # tail, good = True\<rparr> bl
          = Some (Returned bl', \<lparr>buffer = CHR 0x0A # tail, good = True\<rparr>)"
    unfolding buf step using run unfolding rest .
  with c' v' l' v1 l1 show ?case by simp
qed

lemma operator_rshift_written:
  assumes rb: "reads_back put_book get_book (set books)"
    and put: "put_entries put_book 0 books = Some entries"
    and d: "distinct books"
    and c: "containers_are_consistent bl"
    and empty: "books_vector bl = []"
    and room: "length books \<le> length (books_array bl)"
    and cap: "length (books_array bl) \<le> Suc INT_MAX"
  shows "\<exists>bl' stream'.
           operator_rshift get_book
             \<lparr>buffer = decimal (length books) @ entries @ CHR 0x0A # tail, good = True\<rparr> bl
             = Some (Returned bl', stream')
           \<and> containers_are_consistent bl' \<and> books_vector bl' = books
           \<and> length (books_array bl') = length (books_array bl)"
proof -
  let ?n = "length books"
  from put_entries_newline[OF put, of tail] obtain after where
    after: "entries @ CHR 0x0A # tail = CHR 0x0A # after" by blast
  have nl: "\<not> isdigit (CHR 0x0A)" by (simp add: isdigit_def)
  have n: "?n \<le> Suc INT_MAX" using room cap by simp
  have count: "extract_size_t \<lparr>buffer = decimal ?n @ entries @ CHR 0x0A # tail, good = True\<rparr>
                 = (Some ?n, \<lparr>buffer = CHR 0x0A # after, good = True\<rparr>)"
    unfolding after using n nl by (rule extract_size_t_decimal)
  have ig: "ignore 1 \<lparr>buffer = CHR 0x0A # after, good = True\<rparr> = \<lparr>buffer = after, good = True\<rparr>"
    by (simp add: ignore_def)
  have start: "operator_rshift get_book
             \<lparr>buffer = decimal ?n @ entries @ CHR 0x0A # tail, good = True\<rparr> bl
           = extract_books get_book ?n \<lparr>buffer = after, good = True\<rparr> bl"
    unfolding operator_rshift_def using c ig by (simp add: count)
  show ?thesis
  proof (cases books)
    case Nil
    then have "?n = books_sl_list_size bl"
      using c empty by (simp add: consistent_iff books_sl_list_size_def)
    then have "extract_books get_book ?n \<lparr>buffer = after, good = True\<rparr> bl
                 = Some (Returned bl, \<lparr>buffer = after, good = True\<rparr>)"
      by (rule extract_books_done)
    with start c empty Nil show ?thesis by simp
  next
    case (Cons book books')
    from put_entries_Cons[of put_book 0 book books' entries] put Cons obtain entries' where
      put': "put_entries put_book (int (Suc 0)) books' = Some entries'"
      and e: "entries = CHR 0x0A # setw 5 (decimal 0) @ '':  '' @ put_book book @ entries'"
      by auto
    from put_entries_newline[OF put', of tail] obtain rest where
      rest: "entries' @ CHR 0x0A # tail = CHR 0x0A # rest" by blast
    let ?pre = "take 4 (setw 5 (decimal 0))"
    let ?label = "drop 4 (setw 5 (decimal 0))"
    have buf: "after = ?pre @ ?label @ '':  '' @ put_book book @ CHR 0x0A # rest"
    proof -
      have "setw 5 (decimal 0) = take 4 (setw 5 (decimal 0)) @ drop 4 (setw 5 (decimal 0))"
        by simp
      then have "entries @ CHR 0x0A # tail
          = CHR 0x0A # (take 4 (setw 5 (decimal 0)) @ drop 4 (setw 5 (decimal 0)))
            @ '':  '' @ put_book book @ (entries' @ CHR 0x0A # tail)"
        unfolding e by (simp only: append_Cons append_assoc)
      with after have "after = (take 4 (setw 5 (decimal 0)) @ drop 4 (setw 5 (decimal 0)))
            @ '':  '' @ put_book book @ (entries' @ CHR 0x0A # tail)"
        by simp
      then show ?thesis unfolding rest by (simp only: append_Cons append_assoc)
    qed
    have pre: "length ?pre = 4" using setw_length[of "decimal 0"] by simp
    have rb1: "reads_back put_book get_book {book}"
      using rb by (rule reads_back_subset) (simp add: Cons)
    have absent: "book \<notin> set (books_vector bl)" using empty by simp
    have room1: "length (books_vector bl) < length (books_array bl)"
      using room empty Cons by auto
    have more: "?n \<noteq> length (books_vector bl)" using empty Cons by simp
    from extract_books_entry[OF rb1 pre setw_label c absent room1 cap more, of 4 0 rest]
    obtain bl1 where
      step: "extract_books get_book ?n
               \<lparr>buffer = ?pre @ ?label @ '':  '' @ put_book book @ CHR 0x0A # rest, good = True\<rparr> bl
             = extract_books get_book ?n \<lparr>buffer = CHR 0x0A # rest, good = True\<rparr> bl1"
      and c1: "containers_are_consistent bl1"
      and v1: "books_vector bl1 = books_vector bl @ [book]"
      and l1: "length (books_array bl1) = length (books_array bl)" by blast
    have rb': "reads_back put_book get_book (set books')"
      using rb by (rule reads_back_subset) (auto simp: Cons)
    have d1: "distinct (books_vector bl1 @ books')" using d v1 empty Cons by simp
    have r1: "length (books_vector bl1) + length books' \<le> length (books_array bl1)"
      using room v1 l1 empty Cons by simp
    have cap1: "length (books_array bl1) \<le> Suc INT_MAX" using cap l1 by simp
    have cnt1: "?n = length (books_vector bl1) + length books'" using v1 empty Cons by simp
    from extract_books_entries[OF rb' put' c1 d1 r1 cap1 cnt1, of tail] obtain bl' where
      run: "extract_books get_book ?n \<lparr>buffer = entries' @ CHR 0x0A # tail, good = True\<rparr> bl1
               = Some (Returned bl', \<lparr>buffer = CHR 0x0A # tail, good = True\<rparr>)"
      and c': "containers_are_consistent bl'"
      and v': "books_vector bl' = books_vector bl1 @ books'"
      and l': "length (books_array bl') = length (books_array bl1)" by blast
    have "operator_rshift get_book
             \<lparr>buffer = decimal ?n @ entries @ CHR 0x0A # tail, good = True\<rparr> bl
          = Some (Returned bl', \<lparr>buffer = CHR 0x0A # tail, good = True\<rparr>)"
      unfolding start buf step using run unfolding rest .
    with c' v' l' v1 l1 empty Cons show ?thesis by simp
  qed
qed


lemma operator_lshift_written:
  assumes c: "containers_are_consistent bl" and n: "length (books_vector bl) \<le> INT_MAX"
  shows "\<exists>entries. put_entries put_book 0 (books_vector bl) = Some entries
           \<and> operator_lshift put_book bl
                = Value (decimal (length (books_vector bl)) @ entries @ [CHR 0x0A])"
proof -
  from c have sl: "books_sl_list bl = books_vector bl" by (simp add: consistent_iff)
  from put_entries_defined[of 0 "books_vector bl" put_book] n obtain entries where
    e: "put_entries put_book 0 (books_vector bl) = Some entries" by auto
  then have "operator_lshift put_book bl
                = Value (decimal (length (books_vector bl)) @ entries @ [CHR 0x0A])"
    using c sl by (simp add: operator_lshift_def size_bl_consistent)
  with e show ?thesis by blast
qed




lemma compare_bl_same:
  fixes L M :: "'b::linorder BookList"
  assumes "containers_are_consistent L" and "containers_are_consistent M"
    and "books_vector M = books_vector L"
  shows "compare_bl L M = Value 0"
proof -
  from compare_walk_value[of "books_vector L" "books_vector L"]
  have "compare_walk (books_vector L) (books_vector L) = Value 0" by auto
  with assms show ?thesis by (simp add: compare_bl_consistent)
qed

text \<open>
  When the extraction operator of \<^verbatim>\<open>Book\<close> does read a book back behind the rest of
  its index label, \<^verbatim>\<open>operator>>\<close> applied to the text that \<^verbatim>\<open>operator<<\<close> writes
  for a list a program can hold, and to a default-constructed list, returns a
  list that \<^verbatim>\<open>compare\<close> finds equal to the list written.
\<close>

lemma round_trip_behind_labels:
  fixes L :: "'b::linorder BookList"
  assumes "reachable capacity default_book moved get_book L"
    and "capacity \<le> INT_MAX"
    and "reads_back put_book get_book (set (books_vector L))"
  shows "\<exists>text M stream'.
           operator_lshift put_book L = Value text
         \<and> operator_rshift get_book \<lparr>buffer = text, good = True\<rparr>
              (BookList_default capacity default_book) = Some (Returned M, stream')
         \<and> compare_bl L M = Value 0"
proof -
  let ?new = "BookList_default capacity default_book"
  from assms(2) have cap': "capacity \<le> Suc INT_MAX" by simp
  from reachable_invariant[OF assms(1) cap'] have c: "containers_are_consistent L"
    and l: "length (books_array L) = capacity" and d: "distinct (books_vector L)" by simp_all
  from c l have n: "length (books_vector L) \<le> capacity" by (simp add: consistent_iff)
  with assms(2) have "length (books_vector L) \<le> INT_MAX" by simp
  from operator_lshift_written[OF c this, of put_book] obtain entries where
    put: "put_entries put_book 0 (books_vector L) = Some entries"
    and out: "operator_lshift put_book L
                = Value (decimal (length (books_vector L)) @ entries @ [CHR 0x0A])" by blast
  have new: "containers_are_consistent ?new" "books_vector ?new = []"
    "length (books_array ?new) = capacity"
    using BookList_default_consistent[of capacity default_book] by simp_all
  have room: "length (books_vector L) \<le> length (books_array ?new)" using n new by simp
  have cap: "length (books_array ?new) \<le> Suc INT_MAX" using cap' new by simp
  from operator_rshift_written[OF assms(3) put d new(1) new(2) room cap, of "[]"]
  obtain M stream' where
    run: "operator_rshift get_book
            \<lparr>buffer = decimal (length (books_vector L)) @ entries @ [CHR 0x0A], good = True\<rparr> ?new
          = Some (Returned M, stream')"
    and cM: "containers_are_consistent M" and vM: "books_vector M = books_vector L" by blast
  from c cM vM have "compare_bl L M = Value 0" by (rule compare_bl_same)
  with out run show ?thesis by blast
qed



lemma extract_books_more:
  "count \<noteq> books_sl_list_size bl \<Longrightarrow> get_book (ignore 4 stream) = (temp_book, stream') \<Longrightarrow>
   insert_pos temp_book BOTTOM bl = Returned bl' \<Longrightarrow>
   extract_books get_book count stream bl = extract_books get_book count stream' bl'"
  by (subst extract_books.simps) simp


lemma operator_rshift_count:
  "containers_are_consistent bl \<Longrightarrow> extract_size_t stream = (Some count, stream1) \<Longrightarrow>
   operator_rshift get_book stream bl = extract_books get_book count (ignore 1 stream1) bl"
  by (simp add: operator_rshift_def)

lemma extract_size_t_digit:
  assumes "d < 10"
  shows "extract_size_t \<lparr>buffer = digit_char d # CHR 0x0A # rest, good = True\<rparr>
           = (Some d, \<lparr>buffer = CHR 0x0A # rest, good = True\<rparr>)"
proof -
  have "d \<le> Suc INT_MAX" using assms by (simp add: INT_MAX_def)
  moreover have "\<not> isdigit (CHR 0x0A)" by (simp add: isdigit_def)
  ultimately have "extract_size_t \<lparr>buffer = decimal d @ CHR 0x0A # rest, good = True\<rparr>
           = (Some d, \<lparr>buffer = CHR 0x0A # rest, good = True\<rparr>)"
    by (rule extract_size_t_decimal)
  then show ?thesis using assms by (simp add: decimal_small)
qed

subsection \<open>The index labels in the stream\<close>

text \<open>The plain extraction is the inverse of the plain insertion.\<close>

lemma plain_get_put:
  "plain_get_book \<lparr>buffer = plain_put_book book @ CHR 0x0A # rest, good = True\<rparr>
     = (book, \<lparr>buffer = CHR 0x0A # rest, good = True\<rparr>)"
proof -
  have nl: "\<not> isdigit (CHR 0x0A)" by (simp add: isdigit_def)
  obtain d ds where d: "decimal book = d # ds" "isdigit d" using decimal_hd by blast
  then have "\<not> isspace d" using isdigit_not_other by blast
  with d have skip: "dropWhile isspace (decimal book @ CHR 0x0A # rest)
                       = decimal book @ CHR 0x0A # rest" by simp
  have tw: "takeWhile isdigit (decimal book @ CHR 0x0A # rest) = decimal book"
    using nl by (rule takeWhile_digits)
  have dw: "dropWhile isdigit (decimal book @ CHR 0x0A # rest) = CHR 0x0A # rest"
    using nl by (rule dropWhile_digits)
  have ne: "decimal book @ CHR 0x0A # rest \<noteq> []" by simp
  show ?thesis
    unfolding plain_get_book_def plain_put_book_def
    by (simp only: istream.simps skip tw dw ne digits_value_decimal decimal_not_empty
        Let_def if_False if_True simp_thms list.simps)
qed

text \<open>
  \<^verbatim>\<open>operator>>\<close> on the text of the four books 11, 12, 13, 14, with the plain
  extraction: the four characters dropped before each extraction end inside the
  label or inside the book, and the numbers extracted are 0, 1, 1, 2, 2, 3.
\<close>

lemma plain_book_reads_labels:
  "operator_rshift plain_get_book
     \<lparr>buffer = ''4\<newline>    0:  11\<newline>    1:  12\<newline>    2:  13\<newline>    3:  14\<newline>'', good = True\<rparr>
     (BookList_default 5 0)
   = Some (Returned shelf5_labels, \<lparr>buffer = ''\<newline>    3:  14\<newline>'', good = True\<rparr>)"
proof -
  let ?text = "''4\<newline>    0:  11\<newline>    1:  12\<newline>    2:  13\<newline>    3:  14\<newline>''"
  let ?bl0 = "BookList_default 5 (0::nat)"
  let ?bl1 = "\<lparr>books_array = [0::nat, 0, 0, 0, 0], books_array_size = 1, books_vector = [0],
                  books_dl_list = [0], books_sl_list = [0]\<rparr>"
  let ?bl2 = "\<lparr>books_array = [0::nat, 1, 0, 0, 0], books_array_size = 2, books_vector = [0, 1],
                  books_dl_list = [0, 1], books_sl_list = [0, 1]\<rparr>"
  let ?bl3 = "\<lparr>books_array = [0::nat, 1, 2, 0, 0], books_array_size = 3, books_vector = [0, 1, 2],
                  books_dl_list = [0, 1, 2], books_sl_list = [0, 1, 2]\<rparr>"
  let ?s0 = "\<lparr>buffer = ''    0:  11\<newline>    1:  12\<newline>    2:  13\<newline>    3:  14\<newline>'', good = True\<rparr>"
  let ?s1 = "\<lparr>buffer = '':  11\<newline>    1:  12\<newline>    2:  13\<newline>    3:  14\<newline>'', good = True\<rparr>"
  let ?s2 = "\<lparr>buffer = ''\<newline>    1:  12\<newline>    2:  13\<newline>    3:  14\<newline>'', good = True\<rparr>"
  let ?s3 = "\<lparr>buffer = '':  12\<newline>    2:  13\<newline>    3:  14\<newline>'', good = True\<rparr>"
  let ?s4 = "\<lparr>buffer = ''\<newline>    2:  13\<newline>    3:  14\<newline>'', good = True\<rparr>"
  let ?s5 = "\<lparr>buffer = '':  13\<newline>    3:  14\<newline>'', good = True\<rparr>"
  let ?s6 = "\<lparr>buffer = ''\<newline>    3:  14\<newline>'', good = True\<rparr>"
  have c: "containers_are_consistent ?bl0" by code_simp
  have "digit_char 4 = CHR ''4''" by code_simp
  with extract_size_t_digit[of 4 "tl (tl ?text)"]
  have n: "extract_size_t \<lparr>buffer = ?text, good = True\<rparr>
             = (Some 4, \<lparr>buffer = tl ?text, good = True\<rparr>)" by simp
  have i: "ignore 1 \<lparr>buffer = tl ?text, good = True\<rparr> = ?s0" by code_simp
  have m0: "4 \<noteq> books_sl_list_size ?bl0" by code_simp
  have m1: "4 \<noteq> books_sl_list_size ?bl1" by code_simp
  have m2: "4 \<noteq> books_sl_list_size ?bl2" by code_simp
  have m3: "4 \<noteq> books_sl_list_size ?bl3" by code_simp
  have m4: "4 = books_sl_list_size shelf5_labels" by code_simp
  have g0: "plain_get_book (ignore 4 ?s0) = (0, ?s1)" by code_simp
  have g1: "plain_get_book (ignore 4 ?s1) = (1, ?s2)" by code_simp
  have g2: "plain_get_book (ignore 4 ?s2) = (1, ?s3)" by code_simp
  have g3: "plain_get_book (ignore 4 ?s3) = (2, ?s4)" by code_simp
  have g4: "plain_get_book (ignore 4 ?s4) = (2, ?s5)" by code_simp
  have g5: "plain_get_book (ignore 4 ?s5) = (3, ?s6)" by code_simp
  have i0: "insert_pos 0 BOTTOM ?bl0 = Returned ?bl1" by code_simp
  have i1: "insert_pos 1 BOTTOM ?bl1 = Returned ?bl2" by code_simp
  have i2: "insert_pos 1 BOTTOM ?bl2 = Returned ?bl2" by code_simp
  have i3: "insert_pos 2 BOTTOM ?bl2 = Returned ?bl3" by code_simp
  have i4: "insert_pos 2 BOTTOM ?bl3 = Returned ?bl3" by code_simp
  have i5: "insert_pos 3 BOTTOM ?bl3 = Returned shelf5_labels" by code_simp
  show ?thesis
    unfolding operator_rshift_count[OF c n] i
      extract_books_more[where get_book = plain_get_book and stream = ?s0, OF m0 g0 i0]
      extract_books_more[where get_book = plain_get_book and stream = ?s1, OF m1 g1 i1]
      extract_books_more[where get_book = plain_get_book and stream = ?s2, OF m2 g2 i2]
      extract_books_more[where get_book = plain_get_book and stream = ?s3, OF m2 g3 i3]
      extract_books_more[where get_book = plain_get_book and stream = ?s4, OF m3 g4 i4]
      extract_books_more[where get_book = plain_get_book and stream = ?s5, OF m3 g5 i5]
    by (rule extract_books_done[OF m4])
qed

text \<open>
  Claim C6. The claim fails on the code. The list of the four books 11, 12, 13,
  14 is built by \<^verbatim>\<open>operator+=\<close> from a default-constructed list of capacity 5.
  \<^verbatim>\<open>operator<<\<close> writes it with an index label of eight characters before each
  book; \<^verbatim>\<open>operator>>\<close> drops four characters before it extracts a book. With the
  plain extraction the list read back holds the indices 0, 1, 2, 3 in place of the
  books, and \<^verbatim>\<open>compare\<close> of the list written with the list read returns 1, not 0.
\<close>
theorem round_trip_reads_index_labels:
  "plus_eq_init [11, 12, 13, 14] (BookList_default 5 0) = Returned shelf5_14
   \<and> operator_lshift plain_put_book shelf5_14
       = Value ''4\<newline>    0:  11\<newline>    1:  12\<newline>    2:  13\<newline>    3:  14\<newline>''
   \<and> operator_rshift plain_get_book
         \<lparr>buffer = ''4\<newline>    0:  11\<newline>    1:  12\<newline>    2:  13\<newline>    3:  14\<newline>'', good = True\<rparr>
         (BookList_default 5 0)
       = Some (Returned shelf5_labels, \<lparr>buffer = ''\<newline>    3:  14\<newline>'', good = True\<rparr>)
   \<and> books_vector shelf5_labels = [0, 1, 2, 3]
   \<and> compare_bl shelf5_14 shelf5_labels = Value 1"
proof (intro conjI)
  show "plus_eq_init [11, 12, 13, 14] (BookList_default 5 0) = Returned shelf5_14"
    by code_simp
  show "operator_lshift plain_put_book shelf5_14
       = Value ''4\<newline>    0:  11\<newline>    1:  12\<newline>    2:  13\<newline>    3:  14\<newline>''"
    by code_simp
  show "operator_rshift plain_get_book
         \<lparr>buffer = ''4\<newline>    0:  11\<newline>    1:  12\<newline>    2:  13\<newline>    3:  14\<newline>'', good = True\<rparr>
         (BookList_default 5 0)
       = Some (Returned shelf5_labels, \<lparr>buffer = ''\<newline>    3:  14\<newline>'', good = True\<rparr>)"
    by (rule plain_book_reads_labels)
  show "books_vector shelf5_labels = [0, 1, 2, 3]" by (simp add: shelf5_labels_def)
  show "compare_bl shelf5_14 shelf5_labels = Value 1" by code_simp
qed

text \<open>The list read back is not the list written: \<^verbatim>\<open>compare\<close> does not return 0.\<close>
theorem round_trip_reads_index_labels_witness:
  "\<exists>M stream'.
     operator_rshift plain_get_book
       \<lparr>buffer = ''4\<newline>    0:  11\<newline>    1:  12\<newline>    2:  13\<newline>    3:  14\<newline>'', good = True\<rparr>
       (BookList_default 5 0) = Some (Returned M, stream')
     \<and> compare_bl shelf5_14 M \<noteq> Value 0"
proof -
  from round_trip_reads_index_labels
  have "operator_rshift plain_get_book
         \<lparr>buffer = ''4\<newline>    0:  11\<newline>    1:  12\<newline>    2:  13\<newline>    3:  14\<newline>'', good = True\<rparr>
         (BookList_default 5 0)
       = Some (Returned shelf5_labels, \<lparr>buffer = ''\<newline>    3:  14\<newline>'', good = True\<rparr>)"
    and "compare_bl shelf5_14 shelf5_labels = Value 1" by blast+
  then have "operator_rshift plain_get_book
         \<lparr>buffer = ''4\<newline>    0:  11\<newline>    1:  12\<newline>    2:  13\<newline>    3:  14\<newline>'', good = True\<rparr>
         (BookList_default 5 0)
       = Some (Returned shelf5_labels, \<lparr>buffer = ''\<newline>    3:  14\<newline>'', good = True\<rparr>)
     \<and> compare_bl shelf5_14 shelf5_labels \<noteq> Value 0" by simp
  then show ?thesis by blast
qed


end
